theory Spec2Isabelle
  imports Main "HOL-Library.AList" "HOL-Library.Product_Lexorder"
begin

section \<open>Text primitives\<close>

text \<open>
  Python strings are sequences of code points. They are modelled by \<open>string\<close>; a
  \<open>char\<close> stands for the code point with the same number (0 to 255).

  \<open>is_space\<close> is the class \<^verbatim>\<open>\s\<close> of Python's \<^verbatim>\<open>re\<close> on \<^verbatim>\<open>str\<close> patterns, i.e. the
  characters for which \<^verbatim>\<open>str.isspace\<close> holds: TAB, LF, VT, FF, CR, FS, GS, RS, US,
  SPACE, NEL and NBSP in this range.
\<close>

definition is_space :: "char \<Rightarrow> bool" where
  "is_space c = (of_char c \<in> {9::nat, 10, 11, 12, 13, 28, 29, 30, 31, 32, 133, 160})"

text \<open>
  \<open>is_linebreak\<close> are the line boundaries of \<^verbatim>\<open>str.splitlines\<close>: LF, VT, FF, CR, FS,
  GS, RS and NEL (CR immediately followed by LF counts once).
\<close>

definition is_linebreak :: "char \<Rightarrow> bool" where
  "is_linebreak c = (of_char c \<in> {10::nat, 11, 12, 13, 28, 29, 30, 133})"

text \<open>
  \<^verbatim>\<open>text.splitlines()\<close>: the lines without their terminators; a terminator at the
  very end of the text opens no further line. The first argument is the line read
  so far.
\<close>

fun splitlines_from :: "string \<Rightarrow> string \<Rightarrow> string list" where
  "splitlines_from cur [] = (if cur = [] then [] else [cur])"
| "splitlines_from cur (c # cs) =
     (if c = CHR 0x0D then
        (case cs of
           [] \<Rightarrow> [cur]
         | d # ds \<Rightarrow> if d = CHR 0x0A then cur # splitlines_from [] ds
                     else cur # splitlines_from [] cs)
      else if is_linebreak c then cur # splitlines_from [] cs
      else splitlines_from (cur @ [c]) cs)"

definition splitlines :: "string \<Rightarrow> string list" where
  "splitlines text = splitlines_from [] text"

text \<open>\<^verbatim>\<open>sep.join(xs)\<close>.\<close>

fun join :: "string \<Rightarrow> string list \<Rightarrow> string" where
  "join sep [] = []"
| "join sep [x] = x"
| "join sep (x # y # ys) = x @ sep @ join sep (y # ys)"

text \<open>Python's slice \<^verbatim>\<open>xs[i:j]\<close> for indices that are not negative.\<close>

definition slice :: "'a list \<Rightarrow> nat \<Rightarrow> nat \<Rightarrow> 'a list" where
  "slice xs i j = take (j - i) (drop i xs)"

text \<open>\<^verbatim>\<open>str(n)\<close> for a natural number, as an f-string prints a line number.\<close>

fun str_nat :: "nat \<Rightarrow> string" where
  "str_nat n =
     (if n < 10 then [char_of (48 + n)]
      else str_nat (n div 10) @ [char_of (48 + n mod 10)])"

declare str_nat.simps [simp del]

section \<open>The marker pattern\<close>

datatype marker_type = BEGIN | END

text \<open>\<open>strip_prefix p s\<close> is the rest of \<open>s\<close> after the literal \<open>p\<close>, if \<open>s\<close> starts with it.\<close>

fun strip_prefix :: "string \<Rightarrow> string \<Rightarrow> string option" where
  "strip_prefix [] s = Some s"
| "strip_prefix (p # ps) [] = None"
| "strip_prefix (p # ps) (c # cs) = (if p = c then strip_prefix ps cs else None)"

text \<open>
  The alternation \<^verbatim>\<open>(BEGIN|END)\<close>: the first alternative is tried first.
\<close>

definition match_marker_type :: "string \<Rightarrow> (marker_type \<times> string) option" where
  "match_marker_type s =
     (case strip_prefix ''BEGIN'' s of
        Some r \<Rightarrow> Some (BEGIN, r)
      | None \<Rightarrow> (case strip_prefix ''END'' s of
                   Some r \<Rightarrow> Some (END, r)
                 | None \<Rightarrow> None))"

text \<open>
  The lazy group \<^verbatim>\<open>(.*?)\)\<close>: the shortest run of characters other than LF (the dot
  matches no LF) that is followed by a closing parenthesis.
\<close>

definition match_tag :: "string \<Rightarrow> string option" where
  "match_tag s =
     (let tag = takeWhile (\<lambda>c. c \<noteq> CHR '')'') s in
      if length tag < length s \<and> CHR 0x0A \<notin> set tag then Some tag else None)"

text \<open>
  The pattern \<^verbatim>\<open>//\s*(BEGIN|END)-TODO\((.*?)\)\<close> tried at the start of \<open>s\<close>. The
  greedy \<^verbatim>\<open>\s*\<close> takes every leading whitespace character: giving some back cannot
  help, since the keyword starts with a letter.
\<close>

definition match_here :: "string \<Rightarrow> (marker_type \<times> string) option" where
  "match_here s =
     (case strip_prefix ''//'' s of
        None \<Rightarrow> None
      | Some r1 \<Rightarrow>
          (case match_marker_type (dropWhile is_space r1) of
             None \<Rightarrow> None
           | Some (mt, r2) \<Rightarrow>
               (case strip_prefix ''-TODO('' r2 of
                  None \<Rightarrow> None
                | Some r3 \<Rightarrow>
                    (case match_tag r3 of
                       None \<Rightarrow> None
                     | Some tag \<Rightarrow> Some (mt, tag)))))"

text \<open>
  \<^verbatim>\<open>tag_pattern.search(line)\<close> followed by \<^verbatim>\<open>match.groups()\<close>: the match at the
  leftmost position where the pattern matches, \<open>None\<close> when there is none.
\<close>

fun tag_pattern_search :: "string \<Rightarrow> (marker_type \<times> string) option" where
  "tag_pattern_search [] = match_here []"
| "tag_pattern_search (c # cs) =
     (case match_here (c # cs) of
        Some m \<Rightarrow> Some m
      | None \<Rightarrow> tag_pattern_search cs)"

section \<open>Exceptions and messages\<close>

text \<open>
  The exceptions the functions can end with. \<open>ValueError\<close> carries its message;
  \<open>IndexError\<close> is a list index out of range; \<open>OSError\<close> is a file that cannot be
  read.
\<close>

datatype exn = ValueError string | IndexError | OSError

definition quoted :: "string \<Rightarrow> string" where
  "quoted s = [CHR 0x27] @ s @ [CHR 0x27]"

definition duplicate_begin_msg :: "string \<Rightarrow> nat \<Rightarrow> string" where
  "duplicate_begin_msg tag line_num =
     ''Duplicate BEGIN-TODO tag '' @ quoted tag @ '' found at line '' @ str_nat line_num @ ''.''"

definition unmatched_end_msg :: "string \<Rightarrow> nat \<Rightarrow> string" where
  "unmatched_end_msg tag line_num =
     ''END-TODO tag '' @ quoted tag @ '' at line '' @ str_nat line_num
       @ '' has no matching BEGIN-TODO.''"

definition duplicate_end_msg :: "string \<Rightarrow> nat \<Rightarrow> string" where
  "duplicate_end_msg tag line_num =
     ''Duplicate END-TODO tag '' @ quoted tag @ '' found at line '' @ str_nat line_num @ ''.''"

definition unmatched_begin_msg :: "string \<Rightarrow> nat \<Rightarrow> string" where
  "unmatched_begin_msg tag begin_line =
     ''BEGIN-TODO tag '' @ quoted tag @ '' at line '' @ str_nat begin_line
       @ '' has no matching END-TODO.''"

definition overlapping_msg ::
  "string \<Rightarrow> nat \<Rightarrow> nat \<Rightarrow> string \<Rightarrow> nat \<Rightarrow> nat \<Rightarrow> string" where
  "overlapping_msg current_tag current_begin current_end next_tag next_begin next_end =
     ''Overlapping tags detected: '' @ quoted current_tag @ '' (lines ''
       @ str_nat current_begin @ ''-'' @ str_nat current_end @ '') and ''
       @ quoted next_tag @ '' (lines '' @ str_nat next_begin @ ''-'' @ str_nat next_end
       @ '').''"

definition missing_tags_msg :: "string list \<Rightarrow> string" where
  "missing_tags_msg missing_tags =
     ''The following tags are missing in the submission: '' @ join '', '' missing_tags"

definition extra_tags_msg :: "string list \<Rightarrow> string" where
  "extra_tags_msg extra_tags =
     ''The following extra tags are present in the submission: '' @ join '', '' extra_tags"

definition tag_mismatch_msg :: "nat \<Rightarrow> string \<Rightarrow> string \<Rightarrow> string" where
  "tag_mismatch_msg i expected_tag actual_tag =
     ''Tag mismatch at position '' @ str_nat (i + 1) @ '': expected '' @ quoted expected_tag
       @ '' but found '' @ quoted actual_tag @ ''.''"

definition tag_not_in_submission_msg :: "string \<Rightarrow> string" where
  "tag_not_in_submission_msg tag =
     ''Tag '' @ quoted tag @ '' found in assignment but not in submission.''"

definition modified_msg :: "string \<Rightarrow> string \<Rightarrow> string" where
  "modified_msg assignment_segment submission_segment =
     ''The original text has been modified:'' @ [CHR 0x0A] @ assignment_segment
       @ [CHR 0x0A] @ ''-------------------'' @ [CHR 0x0A] @ submission_segment"

definition assignment_suffix_msg :: string where
  "assignment_suffix_msg =
     ''The assignment file must end with '' @ quoted ''-assignment.dfy'' @ ''.''"

definition submission_name_msg :: "string \<Rightarrow> string" where
  "submission_name_msg expected_submission_file =
     ''The submission file must be named '' @ quoted expected_submission_file @ ''.''"

section \<open>extract_tags\<close>

text \<open>
  The dictionary \<^verbatim>\<open>tags\<close> keeps its keys in insertion order, so it is an association
  list with distinct keys; \<^verbatim>\<open>tags[tag] = v\<close> is \<open>AList.update\<close>, which replaces the
  value of a present key in place and puts a new key last. While the lines are
  scanned a value is \<open>(begin_line, None)\<close> or \<open>(begin_line, Some end_line)\<close>. Line
  numbers are natural numbers, counted from 1 by \<^verbatim>\<open>enumerate(..., start=1)\<close>.
\<close>

type_synonym open_tags = "(string \<times> nat \<times> nat option) list"

type_synonym tag_map = "(string \<times> nat \<times> nat) list"

text \<open>The first loop: \<open>line_num\<close> is the number of the first line of the list.\<close>

fun scan_lines :: "nat \<Rightarrow> string list \<Rightarrow> open_tags \<Rightarrow> exn + open_tags" where
  "scan_lines line_num [] tags = Inr tags"
| "scan_lines line_num (line # rest) tags =
     (case tag_pattern_search line of
        None \<Rightarrow> scan_lines (Suc line_num) rest tags
      | Some (BEGIN, tag) \<Rightarrow>
          (if map_of tags tag \<noteq> None
           then Inl (ValueError (duplicate_begin_msg tag line_num))
           else scan_lines (Suc line_num) rest (AList.update tag (line_num, None) tags))
      | Some (END, tag) \<Rightarrow>
          (case map_of tags tag of
             None \<Rightarrow> Inl (ValueError (unmatched_end_msg tag line_num))
           | Some (begin_line, Some end_line) \<Rightarrow>
               Inl (ValueError (duplicate_end_msg tag line_num))
           | Some (begin_line, None) \<Rightarrow>
               scan_lines (Suc line_num) rest
                 (AList.update tag (begin_line, Some line_num) tags)))"

text \<open>
  The second loop: the first tag in dictionary order without an END fails. When
  none does, every value is a pair of two line numbers, and the dictionary is
  handed on with these pairs.
\<close>

fun check_closed :: "open_tags \<Rightarrow> exn + tag_map" where
  "check_closed [] = Inr []"
| "check_closed ((tag, begin_line, None) # rest) =
     Inl (ValueError (unmatched_begin_msg tag begin_line))"
| "check_closed ((tag, begin_line, Some end_line) # rest) =
     (case check_closed rest of
        Inl e \<Rightarrow> Inl e
      | Inr tags \<Rightarrow> Inr ((tag, begin_line, end_line) # tags))"

text \<open>The third loop, over the adjacent pairs of the sorted items.\<close>

fun check_overlap :: "tag_map \<Rightarrow> exn + unit" where
  "check_overlap ((current_tag, current_begin, current_end)
                   # (next_tag, next_begin, next_end) # rest) =
     (if current_end > next_begin
      then Inl (ValueError (overlapping_msg current_tag current_begin current_end
                              next_tag next_begin next_end))
      else check_overlap ((next_tag, next_begin, next_end) # rest))"
| "check_overlap _ = Inr ()"

text \<open>
  \<^verbatim>\<open>sorted(tags.items(), key=lambda x: x[1])\<close> is the stable \<open>sort_key snd\<close>; pairs of
  line numbers are compared lexicographically.
\<close>

definition extract_tags :: "string \<Rightarrow> exn + tag_map" where
  "extract_tags text =
     (case scan_lines 1 (splitlines text) [] of
        Inl e \<Rightarrow> Inl e
      | Inr open_tags \<Rightarrow>
          (case check_closed open_tags of
             Inl e \<Rightarrow> Inl e
           | Inr tags \<Rightarrow>
               (case check_overlap (sort_key snd tags) of
                  Inl e \<Rightarrow> Inl e
                | Inr _ \<Rightarrow> Inr tags)))"

section \<open>compare_tags\<close>

text \<open>The loop over \<^verbatim>\<open>enumerate(zip(...))\<close>; \<open>i\<close> is the index of the first pair.\<close>

fun compare_order :: "nat \<Rightarrow> (string \<times> string) list \<Rightarrow> exn + unit" where
  "compare_order i [] = Inr ()"
| "compare_order i ((expected_tag, actual_tag) # rest) =
     (if expected_tag \<noteq> actual_tag
      then Inl (ValueError (tag_mismatch_msg i expected_tag actual_tag))
      else compare_order (Suc i) rest)"

definition compare_tags :: "tag_map \<Rightarrow> tag_map \<Rightarrow> exn + unit" where
  "compare_tags assignment_tags submission_tags =
     (let assignment_tag_order = map fst assignment_tags;
          submission_tag_order = map fst submission_tags;
          missing_tags = filter (\<lambda>tag. tag \<notin> set submission_tag_order) assignment_tag_order
      in if missing_tags \<noteq> [] then Inl (ValueError (missing_tags_msg missing_tags))
         else
           let extra_tags =
                 filter (\<lambda>tag. tag \<notin> set assignment_tag_order) submission_tag_order
           in if extra_tags \<noteq> [] then Inl (ValueError (extra_tags_msg extra_tags))
              else compare_order 0 (zip assignment_tag_order submission_tag_order))"

section \<open>extract_original_segments\<close>

text \<open>
  The loop over the sorted spans, with the segments appended so far and the
  cursor \<open>prev_end\<close>; the trailing segment is appended after the last span. The
  slice \<^verbatim>\<open>lines[prev_end:begin - 1]\<close> is only taken under the guard
  \<^verbatim>\<open>prev_end < begin - 1\<close>, where no index is negative.
\<close>

fun segments_loop ::
  "string list \<Rightarrow> (nat \<times> nat) list \<Rightarrow> nat \<Rightarrow> string list \<Rightarrow> string list" where
  "segments_loop lines [] prev_end segments =
     (if prev_end < length lines
      then segments @ [join [CHR 0x0A] (drop prev_end lines)]
      else segments)"
| "segments_loop lines ((begin_line, end_line) # rest) prev_end segments =
     segments_loop lines rest end_line
       (if prev_end < begin_line - 1
        then segments @ [join [CHR 0x0A] (slice lines prev_end (begin_line - 1))]
        else segments)"

definition extract_original_segments :: "string \<Rightarrow> tag_map \<Rightarrow> string list" where
  "extract_original_segments text tags =
     segments_loop (splitlines text) (sort (map snd tags)) 0 []"

section \<open>insert_submission_tags\<close>

text \<open>
  List indexing and slicing with Python's reading of an index: a negative index
  counts from the end, an index outside the list raises, a slice is clipped.
\<close>

definition py_index :: "'a list \<Rightarrow> int \<Rightarrow> exn + 'a" where
  "py_index xs i =
     (if 0 \<le> i \<and> i < int (length xs) then Inr (xs ! nat i)
      else if i < 0 \<and> - int (length xs) \<le> i then Inr (xs ! nat (int (length xs) + i))
      else Inl IndexError)"

definition py_bound :: "'a list \<Rightarrow> int \<Rightarrow> nat" where
  "py_bound xs i =
     (let n = int (length xs) in nat (if i < 0 then max 0 (n + i) else min n i))"

definition py_slice :: "'a list \<Rightarrow> int \<Rightarrow> int \<Rightarrow> 'a list" where
  "py_slice xs i j = slice xs (py_bound xs i) (py_bound xs j)"

text \<open>
  The loop over the assignment's tags in dictionary order, with the cursor
  \<open>prev_end\<close> and the lines collected so far.
\<close>

fun insert_loop ::
  "string list \<Rightarrow> string list \<Rightarrow> tag_map \<Rightarrow> tag_map \<Rightarrow> nat \<Rightarrow> string list
     \<Rightarrow> exn + (nat \<times> string list)" where
  "insert_loop assignment_lines submission_lines [] submission_tags prev_end result_lines =
     Inr (prev_end, result_lines)"
| "insert_loop assignment_lines submission_lines
       ((tag, assignment_begin, assignment_end) # rest) submission_tags prev_end result_lines =
     (case map_of submission_tags tag of
        None \<Rightarrow> Inl (ValueError (tag_not_in_submission_msg tag))
      | Some (submission_begin, submission_end) \<Rightarrow>
          (let r1 = result_lines
                      @ py_slice assignment_lines (int prev_end) (int assignment_begin)
           in case py_index assignment_lines (int assignment_begin) of
                Inl e \<Rightarrow> Inl e
              | Inr begin_marker \<Rightarrow>
                  (let r2 = r1 @ [begin_marker];
                       r3 = r2 @ py_slice submission_lines (int submission_begin + 1)
                                   (int submission_end - 1)
                   in case py_index assignment_lines (int assignment_end - 1) of
                        Inl e \<Rightarrow> Inl e
                      | Inr end_marker \<Rightarrow>
                          insert_loop assignment_lines submission_lines rest submission_tags
                            assignment_end (r3 @ [end_marker]))))"

definition insert_submission_tags ::
  "string \<Rightarrow> string \<Rightarrow> tag_map \<Rightarrow> tag_map \<Rightarrow> exn + string" where
  "insert_submission_tags assignment_text submission_text assignment_tags submission_tags =
     (let assignment_lines = splitlines assignment_text;
          submission_lines = splitlines submission_text
      in case insert_loop assignment_lines submission_lines assignment_tags submission_tags
                0 [] of
           Inl e \<Rightarrow> Inl e
         | Inr (prev_end, result_lines) \<Rightarrow>
             Inr (join [CHR 0x0A]
                    (result_lines
                       @ py_slice assignment_lines (int prev_end)
                           (int (length assignment_lines)))))"

section \<open>compare_segments\<close>

text \<open>
  \<^verbatim>\<open>re.sub(r"\s+", "", s)\<close>: every maximal run of whitespace characters is one
  match and is replaced by the empty string.
\<close>

function remove_whitespace :: "string \<Rightarrow> string" where
  "remove_whitespace [] = []"
| "remove_whitespace (c # cs) =
     (if is_space c then remove_whitespace (dropWhile is_space cs)
      else c # remove_whitespace cs)"
  by pat_completeness auto
termination
  by (relation "measure length") (auto simp: length_dropWhile_le less_Suc_eq_le)

fun compare_segments :: "string list \<Rightarrow> string list \<Rightarrow> exn + unit" where
  "compare_segments (assignment_segment # as) (submission_segment # ss) =
     (if remove_whitespace assignment_segment \<noteq> remove_whitespace submission_segment
      then Inl (ValueError (modified_msg assignment_segment submission_segment))
      else compare_segments as ss)"
| "compare_segments _ _ = Inr ()"

section \<open>check_filenames and check_submission\<close>

definition endswith :: "string \<Rightarrow> string \<Rightarrow> bool" where
  "endswith s suffix =
     (length suffix \<le> length s \<and> drop (length s - length suffix) s = suffix)"

text \<open>
  The pattern \<^verbatim>\<open>-assignment.dfy$\<close> tried at the start of \<open>s\<close>: the dot is any
  character but LF, and \<^verbatim>\<open>$\<close> holds at the end of the string and before a final
  LF. The result is what follows the match.
\<close>

definition match_assignment_suffix :: "string \<Rightarrow> string option" where
  "match_assignment_suffix s =
     (case strip_prefix ''-assignment'' s of
        None \<Rightarrow> None
      | Some [] \<Rightarrow> None
      | Some (d # r) \<Rightarrow>
          (if d = CHR 0x0A then None
           else case strip_prefix ''dfy'' r of
                  None \<Rightarrow> None
                | Some rest \<Rightarrow> if rest = [] \<or> rest = [CHR 0x0A] then Some rest else None))"

text \<open>
  \<^verbatim>\<open>re.sub(r"-assignment.dfy$", "-submission.dfy", s)\<close>: after a match at most one
  LF is left, where the pattern cannot match again.
\<close>

fun sub_assignment_suffix :: "string \<Rightarrow> string" where
  "sub_assignment_suffix [] = []"
| "sub_assignment_suffix (c # cs) =
     (case match_assignment_suffix (c # cs) of
        Some rest \<Rightarrow> ''-submission.dfy'' @ rest
      | None \<Rightarrow> c # sub_assignment_suffix cs)"

text \<open>
  The class attribute \<^verbatim>\<open>Settings.no_filename_check\<close> is the first argument. The
  warning printed in the lenient case is not part of the result.
\<close>

definition check_filenames :: "bool \<Rightarrow> string \<Rightarrow> string \<Rightarrow> exn + unit" where
  "check_filenames no_filename_check assignment_file submission_file =
     (if \<not> endswith assignment_file ''-assignment.dfy''
      then Inl (ValueError assignment_suffix_msg)
      else
        let expected_submission_file = sub_assignment_suffix assignment_file
        in if submission_file \<noteq> expected_submission_file
           then (if no_filename_check then Inr ()
                 else Inl (ValueError (submission_name_msg expected_submission_file)))
           else Inr ())"

definition accepted :: string where
  "accepted = ''The submission is ACCEPTED.''"

definition rejected :: "string \<Rightarrow> string" where
  "rejected e = ''The submission is REJECTED.'' @ [CHR 0x0A] @ e"

text \<open>
  \<^verbatim>\<open>try: ... except ValueError as e: return f'The submission is REJECTED.\n{e}'\<close>:
  a \<open>ValueError\<close> of the body becomes the verdict, any other exception goes on to
  the caller, and a result goes to the rest of the function.
\<close>

definition try_stage :: "exn + 'a \<Rightarrow> ('a \<Rightarrow> exn + string) \<Rightarrow> exn + string" where
  "try_stage body cont =
     (case body of
        Inl (ValueError e) \<Rightarrow> Inr (rejected e)
      | Inl other \<Rightarrow> Inl other
      | Inr x \<Rightarrow> cont x)"

text \<open>
  \<^verbatim>\<open>Path(f).read_text()\<close> reads from the file system \<open>fs\<close>, a map from file names to
  contents; a file that is not there raises.
\<close>

definition read_text :: "(string \<rightharpoonup> string) \<Rightarrow> string \<Rightarrow> exn + string" where
  "read_text fs file = (case fs file of None \<Rightarrow> Inl OSError | Some text \<Rightarrow> Inr text)"

definition check_submission ::
  "bool \<Rightarrow> (string \<rightharpoonup> string) \<Rightarrow> string \<Rightarrow> string \<Rightarrow> exn + string" where
  "check_submission no_filename_check fs assignment_file submission_file =
     try_stage (check_filenames no_filename_check assignment_file submission_file) (\<lambda>_.
       case read_text fs assignment_file of
         Inl e \<Rightarrow> Inl e
       | Inr assignment_text \<Rightarrow>
           (case read_text fs submission_file of
              Inl e \<Rightarrow> Inl e
            | Inr submission_text \<Rightarrow>
                try_stage
                  (case extract_tags assignment_text of
                     Inl e \<Rightarrow> Inl e
                   | Inr assignment_tags \<Rightarrow>
                       (case extract_tags submission_text of
                          Inl e \<Rightarrow> Inl e
                        | Inr submission_tags \<Rightarrow> Inr (assignment_tags, submission_tags)))
                  (\<lambda>(assignment_tags, submission_tags).
                     try_stage (compare_tags assignment_tags submission_tags) (\<lambda>_.
                       let assignment_segments =
                             extract_original_segments assignment_text assignment_tags;
                           submission_segments =
                             extract_original_segments submission_text submission_tags
                       in try_stage (compare_segments assignment_segments submission_segments)
                            (\<lambda>_. Inr accepted)))))"

section \<open>Notions used to state the properties\<close>

text \<open>The tags of the BEGIN markers of a document, in line order.\<close>

fun begin_tags :: "string list \<Rightarrow> string list" where
  "begin_tags [] = []"
| "begin_tags (line # rest) =
     (case tag_pattern_search line of
        Some (BEGIN, tag) \<Rightarrow> tag # begin_tags rest
      | _ \<Rightarrow> begin_tags rest)"

text \<open>
  What the first loop of \<open>extract_tags\<close> maintains: after the lines \<open>pre\<close>, the
  dictionary holds exactly the markers seen, under distinct keys in the order of
  their BEGIN lines.
\<close>

definition scan_inv :: "string list \<Rightarrow> open_tags \<Rightarrow> bool" where
  "scan_inv pre tags \<longleftrightarrow>
     distinct (map fst tags) \<and> map fst tags = begin_tags pre
     \<and> (\<forall>t b eo. map_of tags t = Some (b, eo) \<longrightarrow>
           1 \<le> b \<and> b \<le> length pre \<and> tag_pattern_search (pre ! (b - 1)) = Some (BEGIN, t)
           \<and> (\<forall>e. eo = Some e \<longrightarrow>
                 b < e \<and> e \<le> length pre \<and> tag_pattern_search (pre ! (e - 1)) = Some (END, t)))
     \<and> (\<forall>i < length pre. \<forall>t. tag_pattern_search (pre ! i) = Some (BEGIN, t) \<longrightarrow>
           (\<exists>eo. map_of tags t = Some (Suc i, eo)))
     \<and> (\<forall>i < length pre. \<forall>t. tag_pattern_search (pre ! i) = Some (END, t) \<longrightarrow>
           (\<exists>b. map_of tags t = Some (b, Some (Suc i))))"

text \<open>
  A tag map fits a document: distinct tags in the order of their BEGIN lines, each
  with the line numbers of its BEGIN and END markers, every marker line of the
  document belonging to a tag, and spans that do not overlap.
\<close>

definition tags_fit :: "string list \<Rightarrow> tag_map \<Rightarrow> bool" where
  "tags_fit lines tags \<longleftrightarrow>
     distinct (map fst tags) \<and> map fst tags = begin_tags lines
     \<and> (\<forall>(t, b, e) \<in> set tags.
           1 \<le> b \<and> b < e \<and> e \<le> length lines
           \<and> tag_pattern_search (lines ! (b - 1)) = Some (BEGIN, t)
           \<and> tag_pattern_search (lines ! (e - 1)) = Some (END, t))
     \<and> (\<forall>i < length lines. \<forall>t. tag_pattern_search (lines ! i) = Some (BEGIN, t) \<longrightarrow>
           (\<exists>e. (t, Suc i, e) \<in> set tags))
     \<and> (\<forall>i < length lines. \<forall>t. tag_pattern_search (lines ! i) = Some (END, t) \<longrightarrow>
           (\<exists>b. (t, b, Suc i) \<in> set tags))
     \<and> (\<forall>(t1, b1, e1) \<in> set tags. \<forall>(t2, b2, e2) \<in> set tags. b1 < b2 \<longrightarrow> e1 < b2)"

text \<open>
  Spans in line order, after the cursor \<open>cur\<close> and inside a document of \<open>n\<close>
  lines: each begins after the end of the one before and ends after it begins.
\<close>

fun spans_ok :: "nat \<Rightarrow> nat \<Rightarrow> (nat \<times> nat) list \<Rightarrow> bool" where
  "spans_ok n cur [] = (cur \<le> n)"
| "spans_ok n cur ((b, e) # rest) = (cur < b \<and> b < e \<and> spans_ok n e rest)"

text \<open>
  The complement of the spans: the lines before the first span, between two
  consecutive spans, and after the last one.
\<close>

fun gaps :: "string list \<Rightarrow> (nat \<times> nat) list \<Rightarrow> nat \<Rightarrow> string list list" where
  "gaps lines [] cur = [drop cur lines]"
| "gaps lines ((b, e) # rest) cur = slice lines cur (b - 1) # gaps lines rest e"

text \<open>The lines of a span, from its BEGIN line to its END line.\<close>

definition span_lines :: "string list \<Rightarrow> nat \<times> nat \<Rightarrow> string list" where
  "span_lines lines span = slice lines (fst span - 1) (snd span)"

text \<open>Pieces of two kinds put together alternately, starting with the first kind.\<close>

fun weave :: "'a list list \<Rightarrow> 'a list list \<Rightarrow> 'a list" where
  "weave (g # gs) (s # ss) = g @ s @ weave gs ss"
| "weave gs [] = concat gs"
| "weave [] ss = concat ss"

text \<open>\<^verbatim>\<open>s.split("\n")\<close>, which undoes \<^verbatim>\<open>"\n".join\<close> on lines without LF.\<close>

fun split_nl :: "string \<Rightarrow> string list" where
  "split_nl [] = [[]]"
| "split_nl (c # cs) =
     (if c = CHR 0x0A then [] # split_nl cs
      else (c # hd (split_nl cs)) # tl (split_nl cs))"


section \<open>Properties of compare_segments\<close>

lemma filter_dropWhile_neg: "filter (\<lambda>x. \<not> P x) (dropWhile P xs) = filter (\<lambda>x. \<not> P x) xs"
  by (induction xs) auto

lemma remove_whitespace_filter: "remove_whitespace s = filter (\<lambda>c. \<not> is_space c) s"
  by (induction s rule: remove_whitespace.induct) (auto simp: filter_dropWhile_neg)

lemma compare_segments_ok_iff:
  "compare_segments a s = Inr () \<longleftrightarrow>
     (\<forall>i < min (length a) (length s). remove_whitespace (a ! i) = remove_whitespace (s ! i))"
proof (induction a s rule: compare_segments.induct)
  case (1 x as y ss)
  then show ?case by (auto simp: less_Suc_eq_0_disj)
qed auto

lemma compare_segments_first:
  "compare_segments a s = Inl e \<longleftrightarrow>
     (\<exists>i < min (length a) (length s).
        (\<forall>j < i. remove_whitespace (a ! j) = remove_whitespace (s ! j))
        \<and> remove_whitespace (a ! i) \<noteq> remove_whitespace (s ! i)
        \<and> e = ValueError (modified_msg (a ! i) (s ! i)))"
proof (induction a s rule: compare_segments.induct)
  case (1 x as y ss)
  let ?P = "\<lambda>a s i. (\<forall>j < i. remove_whitespace (a ! j) = remove_whitespace (s ! j))
        \<and> remove_whitespace (a ! i) \<noteq> remove_whitespace (s ! i)
        \<and> e = ValueError (modified_msg (a ! i) (s ! i))"
  show ?case
  proof (cases "remove_whitespace x = remove_whitespace y")
    case True
    have step: "?P (x # as) (y # ss) (Suc k) = ?P as ss k" for k
      using True by (auto simp: less_Suc_eq_0_disj)
    have zero: "\<not> ?P (x # as) (y # ss) 0" using True by simp
    have "(\<exists>i < min (length (x # as)) (length (y # ss)). ?P (x # as) (y # ss) i)
          = (\<exists>k < min (length as) (length ss). ?P (x # as) (y # ss) (Suc k))"
      using zero by (simp only: list.size min_Suc_Suc Ex_less_Suc2 add_Suc_right Nat.add_0_right) blast
    also have "\<dots> = (\<exists>k < min (length as) (length ss). ?P as ss k)"
      by (simp only: step)
    finally show ?thesis using True 1 by simp
  next
    case False
    have z: "i = 0" if "\<forall>j < i. remove_whitespace ((x # as) ! j) = remove_whitespace ((y # ss) ! j)" for i
      using False that by (cases i) auto
    have "(\<exists>i < min (length (x # as)) (length (y # ss)). ?P (x # as) (y # ss) i)
          = ?P (x # as) (y # ss) 0"
      using z by fastforce
    then show ?thesis using False by auto
  qed
qed auto

lemma compare_segments_append_left:
  "length a = length s \<Longrightarrow> compare_segments (a @ extra) s = compare_segments a s"
  by (induction a s rule: compare_segments.induct) auto

lemma compare_segments_append_right:
  "length a = length s \<Longrightarrow> compare_segments a (s @ extra) = compare_segments a s"
  by (induction a s rule: compare_segments.induct) auto

text \<open>
  Claim C4. \<open>compare_segments\<close> raises for some pair of segments at the same
  position iff some such pair differs once every whitespace character (line feeds
  included) is deleted from both; the exception reports the first pair that
  differs. \<^verbatim>\<open>"x = 1;"\<close> against \<^verbatim>\<open>"  x   =\n1; "\<close> passes, \<^verbatim>\<open>"x = 1;"\<close> against
  \<^verbatim>\<open>"x = 2;"\<close> fails.
\<close>

theorem compare_segments_whitespace_insensitive:
  "((\<exists>e. compare_segments a s = Inl e) \<longleftrightarrow>
      (\<exists>i < min (length a) (length s).
         filter (\<lambda>c. \<not> is_space c) (a ! i) \<noteq> filter (\<lambda>c. \<not> is_space c) (s ! i)))
   \<and> (\<forall>e. compare_segments a s = Inl e \<longrightarrow>
         (\<exists>i < min (length a) (length s).
            (\<forall>j < i. filter (\<lambda>c. \<not> is_space c) (a ! j) = filter (\<lambda>c. \<not> is_space c) (s ! j))
            \<and> filter (\<lambda>c. \<not> is_space c) (a ! i) \<noteq> filter (\<lambda>c. \<not> is_space c) (s ! i)
            \<and> e = ValueError (modified_msg (a ! i) (s ! i))))
   \<and> compare_segments [''x = 1;''] [''  x   ='' @ [CHR 0x0A] @ ''1; ''] = Inr ()
   \<and> compare_segments [''x = 1;''] [''x = 2;'']
       = Inl (ValueError (modified_msg ''x = 1;'' ''x = 2;''))"
proof -
  have "(\<exists>e. compare_segments a s = Inl e) \<longleftrightarrow> compare_segments a s \<noteq> Inr ()"
    by (cases "compare_segments a s") auto
  then have 1: "(\<exists>e. compare_segments a s = Inl e) \<longleftrightarrow>
      (\<exists>i < min (length a) (length s).
         filter (\<lambda>c. \<not> is_space c) (a ! i) \<noteq> filter (\<lambda>c. \<not> is_space c) (s ! i))"
    by (simp add: compare_segments_ok_iff remove_whitespace_filter)
  have 2: "\<forall>e. compare_segments a s = Inl e \<longrightarrow>
         (\<exists>i < min (length a) (length s).
            (\<forall>j < i. filter (\<lambda>c. \<not> is_space c) (a ! j) = filter (\<lambda>c. \<not> is_space c) (s ! j))
            \<and> filter (\<lambda>c. \<not> is_space c) (a ! i) \<noteq> filter (\<lambda>c. \<not> is_space c) (s ! i)
            \<and> e = ValueError (modified_msg (a ! i) (s ! i)))"
    using compare_segments_first [of a s] by (simp add: remove_whitespace_filter)
  have 3: "compare_segments [''x = 1;''] [''  x   ='' @ [CHR 0x0A] @ ''1; ''] = Inr ()"
    by (simp add: remove_whitespace_filter is_space_def)
  have 4: "compare_segments [''x = 1;''] [''x = 2;'']
       = Inl (ValueError (modified_msg ''x = 1;'' ''x = 2;''))"
    by (simp add: remove_whitespace_filter is_space_def)
  show ?thesis using 1 2 3 4 by blast
qed

theorem compare_segments_whitespace_insensitive_witness:
  "(\<exists>e. compare_segments [''a b'', ''c''] [''ab'', ''d'', ''e''] = Inl e)
   \<and> (\<exists>i < min (length [''a b'', ''c'']) (length [''ab'', ''d'', ''e'']).
         filter (\<lambda>c. \<not> is_space c) ([''a b'', ''c''] ! i)
           \<noteq> filter (\<lambda>c. \<not> is_space c) ([''ab'', ''d'', ''e''] ! i))"
proof -
  have "compare_segments [''a b'', ''c''] [''ab'', ''d'', ''e'']
          = Inl (ValueError (modified_msg ''c'' ''d''))"
    by (simp add: remove_whitespace_filter is_space_def)
  then have "\<exists>e. compare_segments [''a b'', ''c''] [''ab'', ''d'', ''e''] = Inl e"
    by blast
  with compare_segments_whitespace_insensitive [of "[''a b'', ''c'']" "[''ab'', ''d'', ''e'']"]
  show ?thesis by blast
qed

text \<open>
  Claim C9. Segments of the longer list beyond the length of the shorter one are
  never examined: appending extra segments to either list leaves the result
  unchanged, so the comparison passes whenever all paired segments agree up to
  whitespace.
\<close>

theorem compare_segments_ignores_unpaired:
  "length a = length s \<longrightarrow>
     compare_segments (a @ extra) s = compare_segments a s
     \<and> compare_segments a (s @ extra) = compare_segments a s
     \<and> ((\<forall>i < length a. filter (\<lambda>c. \<not> is_space c) (a ! i) = filter (\<lambda>c. \<not> is_space c) (s ! i))
          \<longrightarrow> compare_segments (a @ extra) s = Inr () \<and> compare_segments a (s @ extra) = Inr ())"
  by (simp add: compare_segments_append_left compare_segments_append_right
        compare_segments_ok_iff remove_whitespace_filter)

theorem compare_segments_ignores_unpaired_witness:
  "compare_segments ([''x = 1;''] @ [''extra'']) [''x=1;''] = Inr ()
   \<and> compare_segments [''x = 1;''] ([''x=1;''] @ [''other'', ''more'']) = Inr ()"
  using compare_segments_ignores_unpaired [of "[''x = 1;'']" "[''x=1;'']" "[''extra'']"]
    compare_segments_ignores_unpaired [of "[''x = 1;'']" "[''x=1;'']" "[''other'', ''more'']"]
  by (simp add: is_space_def)

section \<open>Properties of the marker pattern\<close>

lemma strip_prefix_Some: "strip_prefix p s = Some r \<longleftrightarrow> s = p @ r"
  by (induction p s rule: strip_prefix.induct) auto

lemma strip_prefix_None: "strip_prefix p s = None \<longleftrightarrow> (\<forall>r. s \<noteq> p @ r)"
  by (induction p s rule: strip_prefix.induct) auto

lemma match_marker_type_Some:
  "match_marker_type s = Some (mt, r) \<longleftrightarrow>
     s = (case mt of BEGIN \<Rightarrow> ''BEGIN'' | END \<Rightarrow> ''END'') @ r"
  unfolding match_marker_type_def
  by (cases mt) (auto simp: strip_prefix_Some strip_prefix_None split: option.splits)

lemma match_tag_Some:
  "match_tag s = Some tag \<longleftrightarrow>
     (\<exists>post. s = tag @ '')'' @ post \<and> (\<forall>c \<in> set tag. c \<noteq> CHR '')'' \<and> c \<noteq> CHR 0x0A))"
proof
  assume "match_tag s = Some tag"
  then have t: "tag = takeWhile (\<lambda>c. c \<noteq> CHR '')'') s" and l: "length tag < length s"
    and n: "CHR 0x0A \<notin> set tag"
    by (auto simp: match_tag_def Let_def split: if_splits)
  have s: "s = tag @ dropWhile (\<lambda>c. c \<noteq> CHR '')'') s" using t by simp
  have ne: "dropWhile (\<lambda>c. c \<noteq> CHR '')'') s \<noteq> []"
  proof
    assume "dropWhile (\<lambda>c. c \<noteq> CHR '')'') s = []"
    then have "takeWhile (\<lambda>c. c \<noteq> CHR '')'') s = s"
      by (metis append_Nil2 takeWhile_dropWhile_id)
    with t l show False by simp
  qed
  then have "hd (dropWhile (\<lambda>c. c \<noteq> CHR '')'') s) = CHR '')''"
    using hd_dropWhile [of "\<lambda>c. c \<noteq> CHR '')''" s] by simp
  with ne obtain post where "dropWhile (\<lambda>c. c \<noteq> CHR '')'') s = CHR '')'' # post"
    by (cases "dropWhile (\<lambda>c. c \<noteq> CHR '')'') s") auto
  with s have "s = tag @ '')'' @ post" by simp
  moreover have "\<forall>c \<in> set tag. c \<noteq> CHR '')'' \<and> c \<noteq> CHR 0x0A"
    using t n by (metis set_takeWhileD)
  ultimately show "\<exists>post. s = tag @ '')'' @ post \<and> (\<forall>c \<in> set tag. c \<noteq> CHR '')'' \<and> c \<noteq> CHR 0x0A)"
    by blast
next
  assume "\<exists>post. s = tag @ '')'' @ post \<and> (\<forall>c \<in> set tag. c \<noteq> CHR '')'' \<and> c \<noteq> CHR 0x0A)"
  then obtain post where s: "s = tag @ '')'' @ post"
    and a: "\<forall>c \<in> set tag. c \<noteq> CHR '')'' \<and> c \<noteq> CHR 0x0A" by blast
  have "takeWhile (\<lambda>c. c \<noteq> CHR '')'') s = tag"
    using s a by (simp add: takeWhile_append2)
  then show "match_tag s = Some tag"
    using s a by (auto simp: match_tag_def Let_def)
qed

lemma dropWhile_space_keyword:
  "\<forall>c \<in> set ws. is_space c \<Longrightarrow>
     dropWhile is_space (ws @ (case mt of BEGIN \<Rightarrow> ''BEGIN'' | END \<Rightarrow> ''END'') @ r)
       = (case mt of BEGIN \<Rightarrow> ''BEGIN'' | END \<Rightarrow> ''END'') @ r"
  by (cases mt) (simp_all add: dropWhile_append2 is_space_def)

lemma match_here_Some:
  "match_here s = Some (mt, tag) \<longleftrightarrow>
     (\<exists>ws post. s = ''//'' @ ws @ (case mt of BEGIN \<Rightarrow> ''BEGIN'' | END \<Rightarrow> ''END'')
                     @ ''-TODO('' @ tag @ '')'' @ post
        \<and> (\<forall>c \<in> set ws. is_space c)
        \<and> (\<forall>c \<in> set tag. c \<noteq> CHR '')'' \<and> c \<noteq> CHR 0x0A))"
proof
  assume m: "match_here s = Some (mt, tag)"
  then obtain r1 r2 r3 where 1: "s = ''//'' @ r1"
    and 2: "dropWhile is_space r1 = (case mt of BEGIN \<Rightarrow> ''BEGIN'' | END \<Rightarrow> ''END'') @ r2"
    and 3: "r2 = ''-TODO('' @ r3" and 4: "match_tag r3 = Some tag"
    unfolding match_here_def
    by (auto simp: strip_prefix_Some match_marker_type_Some split: option.splits)
  from 4 obtain post where 5: "r3 = tag @ '')'' @ post"
    and a: "\<forall>c \<in> set tag. c \<noteq> CHR '')'' \<and> c \<noteq> CHR 0x0A"
    unfolding match_tag_Some by blast
  have "r1 = takeWhile is_space r1 @ dropWhile is_space r1" by simp
  with 1 2 3 5 have "s = ''//'' @ takeWhile is_space r1
       @ (case mt of BEGIN \<Rightarrow> ''BEGIN'' | END \<Rightarrow> ''END'') @ ''-TODO('' @ tag @ '')'' @ post"
    by simp
  moreover have "\<forall>c \<in> set (takeWhile is_space r1). is_space c"
    by (metis set_takeWhileD)
  ultimately show "\<exists>ws post. s = ''//'' @ ws @ (case mt of BEGIN \<Rightarrow> ''BEGIN'' | END \<Rightarrow> ''END'')
                     @ ''-TODO('' @ tag @ '')'' @ post
        \<and> (\<forall>c \<in> set ws. is_space c)
        \<and> (\<forall>c \<in> set tag. c \<noteq> CHR '')'' \<and> c \<noteq> CHR 0x0A)"
    using a by blast
next
  assume "\<exists>ws post. s = ''//'' @ ws @ (case mt of BEGIN \<Rightarrow> ''BEGIN'' | END \<Rightarrow> ''END'')
                     @ ''-TODO('' @ tag @ '')'' @ post
        \<and> (\<forall>c \<in> set ws. is_space c)
        \<and> (\<forall>c \<in> set tag. c \<noteq> CHR '')'' \<and> c \<noteq> CHR 0x0A)"
  then obtain ws post where s: "s = ''//'' @ ws @ (case mt of BEGIN \<Rightarrow> ''BEGIN'' | END \<Rightarrow> ''END'')
                     @ ''-TODO('' @ tag @ '')'' @ post"
    and w: "\<forall>c \<in> set ws. is_space c"
    and a: "\<forall>c \<in> set tag. c \<noteq> CHR '')'' \<and> c \<noteq> CHR 0x0A" by blast
  have 1: "strip_prefix ''//'' s = Some (ws @ (case mt of BEGIN \<Rightarrow> ''BEGIN'' | END \<Rightarrow> ''END'')
                     @ ''-TODO('' @ tag @ '')'' @ post)"
    unfolding strip_prefix_Some using s by simp
  have 2: "match_marker_type ((case mt of BEGIN \<Rightarrow> ''BEGIN'' | END \<Rightarrow> ''END'')
                     @ ''-TODO('' @ tag @ '')'' @ post) = Some (mt, ''-TODO('' @ tag @ '')'' @ post)"
    unfolding match_marker_type_Some by simp
  have 3: "strip_prefix ''-TODO('' (''-TODO('' @ tag @ '')'' @ post) = Some (tag @ '')'' @ post)"
    unfolding strip_prefix_Some by simp
  have 4: "match_tag (tag @ '')'' @ post) = Some tag"
    unfolding match_tag_Some using a by blast
  show "match_here s = Some (mt, tag)"
    unfolding match_here_def by (simp only: 1 2 3 4 dropWhile_space_keyword [OF w] option.case prod.case)
qed

lemma tag_pattern_search_Some:
  "tag_pattern_search s = Some m \<Longrightarrow> \<exists>pre r. s = pre @ r \<and> match_here r = Some m"
proof (induction s)
  case Nil
  then show ?case by auto
next
  case (Cons c cs)
  show ?case
  proof (cases "match_here (c # cs)")
    case None
    with Cons obtain pre r where "cs = pre @ r" "match_here r = Some m" by auto
    then have "c # cs = (c # pre) @ r \<and> match_here r = Some m" by simp
    then show ?thesis by blast
  next
    case (Some a)
    with Cons.prems have "c # cs = [] @ (c # cs) \<and> match_here (c # cs) = Some m" by simp
    then show ?thesis by blast
  qed
qed

lemma tag_pattern_search_found:
  "match_here r \<noteq> None \<Longrightarrow> tag_pattern_search (pre @ r) \<noteq> None"
proof (induction pre)
  case Nil
  then show ?case by (cases r) auto
next
  case (Cons c pre)
  then show ?case by (auto split: option.splits)
qed

text \<open>
  Claim C3, as stated: a line with \<^verbatim>\<open>BEGIN-TODO(tag)\<close> and no comment prefix would
  be a marker. The pattern requires the two slashes, so such a line is no marker
  and the document has no tags.
\<close>

theorem marker_without_comment_prefix_counterexample:
  "tag_pattern_search ''BEGIN-TODO(tag)'' = None
   \<and> extract_tags ''BEGIN-TODO(tag)'' = Inr []"
  by code_simp

text \<open>
  Claim C3, amended. A line is a marker iff it contains, anywhere, two slashes,
  then any number of whitespace characters, then \<^verbatim>\<open>BEGIN-TODO(\<close> or \<^verbatim>\<open>END-TODO(\<close>,
  then a tag without closing parenthesis (and without LF), then a closing
  parenthesis. The marker type and the tag that are reported come from such an
  occurrence.
\<close>

theorem marker_line_iff:
  "((\<exists>mt tag. tag_pattern_search line = Some (mt, tag)) \<longleftrightarrow>
      (\<exists>pre ws mt tag post.
         line = pre @ ''//'' @ ws @ (case mt of BEGIN \<Rightarrow> ''BEGIN'' | END \<Rightarrow> ''END'')
                  @ ''-TODO('' @ tag @ '')'' @ post
         \<and> (\<forall>c \<in> set ws. is_space c)
         \<and> (\<forall>c \<in> set tag. c \<noteq> CHR '')'' \<and> c \<noteq> CHR 0x0A)))
   \<and> (\<forall>mt tag. tag_pattern_search line = Some (mt, tag) \<longrightarrow>
         (\<exists>pre ws post.
            line = pre @ ''//'' @ ws @ (case mt of BEGIN \<Rightarrow> ''BEGIN'' | END \<Rightarrow> ''END'')
                     @ ''-TODO('' @ tag @ '')'' @ post
            \<and> (\<forall>c \<in> set ws. is_space c)
            \<and> (\<forall>c \<in> set tag. c \<noteq> CHR '')'' \<and> c \<noteq> CHR 0x0A)))"
proof -
  have fwd: "\<exists>pre ws post.
            line = pre @ ''//'' @ ws @ (case mt of BEGIN \<Rightarrow> ''BEGIN'' | END \<Rightarrow> ''END'')
                     @ ''-TODO('' @ tag @ '')'' @ post
            \<and> (\<forall>c \<in> set ws. is_space c)
            \<and> (\<forall>c \<in> set tag. c \<noteq> CHR '')'' \<and> c \<noteq> CHR 0x0A)"
    if "tag_pattern_search line = Some (mt, tag)" for mt tag
  proof -
    from tag_pattern_search_Some [OF that] obtain pre r
      where l: "line = pre @ r" and m: "match_here r = Some (mt, tag)" by blast
    from m obtain ws post
      where "r = ''//'' @ ws @ (case mt of BEGIN \<Rightarrow> ''BEGIN'' | END \<Rightarrow> ''END'')
                     @ ''-TODO('' @ tag @ '')'' @ post"
        and "\<forall>c \<in> set ws. is_space c"
        and "\<forall>c \<in> set tag. c \<noteq> CHR '')'' \<and> c \<noteq> CHR 0x0A"
      unfolding match_here_Some by blast
    with l show ?thesis by blast
  qed
  have bwd: "\<exists>mt tag. tag_pattern_search line = Some (mt, tag)"
    if "line = pre @ ''//'' @ ws @ (case mt of BEGIN \<Rightarrow> ''BEGIN'' | END \<Rightarrow> ''END'')
                  @ ''-TODO('' @ tag @ '')'' @ post"
      and "\<forall>c \<in> set ws. is_space c"
      and "\<forall>c \<in> set tag. c \<noteq> CHR '')'' \<and> c \<noteq> CHR 0x0A"
    for pre ws mt tag post
  proof -
    have "match_here (''//'' @ ws @ (case mt of BEGIN \<Rightarrow> ''BEGIN'' | END \<Rightarrow> ''END'')
                  @ ''-TODO('' @ tag @ '')'' @ post) = Some (mt, tag)"
      unfolding match_here_Some using that(2,3) by blast
    then have "tag_pattern_search line \<noteq> None"
      using tag_pattern_search_found [of _ pre] that(1) by simp
    then show ?thesis by auto
  qed
  show ?thesis
  proof (intro conjI iffI allI impI)
    assume "\<exists>mt tag. tag_pattern_search line = Some (mt, tag)"
    then obtain mt tag where "tag_pattern_search line = Some (mt, tag)" by (elim exE)
    from fwd [OF this] obtain pre ws post where
      "line = pre @ ''//'' @ ws @ (case mt of BEGIN \<Rightarrow> ''BEGIN'' | END \<Rightarrow> ''END'')
                     @ ''-TODO('' @ tag @ '')'' @ post
            \<and> (\<forall>c \<in> set ws. is_space c)
            \<and> (\<forall>c \<in> set tag. c \<noteq> CHR '')'' \<and> c \<noteq> CHR 0x0A)"
      by (elim exE)
    then show "\<exists>pre ws mt tag post.
         line = pre @ ''//'' @ ws @ (case mt of BEGIN \<Rightarrow> ''BEGIN'' | END \<Rightarrow> ''END'')
                  @ ''-TODO('' @ tag @ '')'' @ post
         \<and> (\<forall>c \<in> set ws. is_space c)
         \<and> (\<forall>c \<in> set tag. c \<noteq> CHR '')'' \<and> c \<noteq> CHR 0x0A)"
      by (intro exI)
  next
    assume "\<exists>pre ws mt tag post.
         line = pre @ ''//'' @ ws @ (case mt of BEGIN \<Rightarrow> ''BEGIN'' | END \<Rightarrow> ''END'')
                  @ ''-TODO('' @ tag @ '')'' @ post
         \<and> (\<forall>c \<in> set ws. is_space c)
         \<and> (\<forall>c \<in> set tag. c \<noteq> CHR '')'' \<and> c \<noteq> CHR 0x0A)"
    then obtain pre ws mt tag post where
      "line = pre @ ''//'' @ ws @ (case mt of BEGIN \<Rightarrow> ''BEGIN'' | END \<Rightarrow> ''END'')
                  @ ''-TODO('' @ tag @ '')'' @ post"
      "\<forall>c \<in> set ws. is_space c"
      "\<forall>c \<in> set tag. c \<noteq> CHR '')'' \<and> c \<noteq> CHR 0x0A"
      by (elim exE conjE)
    then show "\<exists>mt tag. tag_pattern_search line = Some (mt, tag)" by (rule bwd)
  next
    fix mt tag
    assume "tag_pattern_search line = Some (mt, tag)"
    then show "\<exists>pre ws post.
            line = pre @ ''//'' @ ws @ (case mt of BEGIN \<Rightarrow> ''BEGIN'' | END \<Rightarrow> ''END'')
                     @ ''-TODO('' @ tag @ '')'' @ post
            \<and> (\<forall>c \<in> set ws. is_space c)
            \<and> (\<forall>c \<in> set tag. c \<noteq> CHR '')'' \<and> c \<noteq> CHR 0x0A)"
      by (rule fwd)
  qed
qed

theorem marker_line_iff_witness:
  "tag_pattern_search ''x := 1; //  END-TODO(t1) rest'' = Some (END, ''t1'')
   \<and> (\<exists>pre ws post.
         ''x := 1; //  END-TODO(t1) rest''
           = pre @ ''//'' @ ws @ (case END of BEGIN \<Rightarrow> ''BEGIN'' | END \<Rightarrow> ''END'')
                @ ''-TODO('' @ ''t1'' @ '')'' @ post
         \<and> (\<forall>c \<in> set ws. is_space c)
         \<and> (\<forall>c \<in> set ''t1''. c \<noteq> CHR '')'' \<and> c \<noteq> CHR 0x0A))"
proof
  show r: "tag_pattern_search ''x := 1; //  END-TODO(t1) rest'' = Some (END, ''t1'')"
    by code_simp
  show "\<exists>pre ws post.
         ''x := 1; //  END-TODO(t1) rest''
           = pre @ ''//'' @ ws @ (case END of BEGIN \<Rightarrow> ''BEGIN'' | END \<Rightarrow> ''END'')
                @ ''-TODO('' @ ''t1'' @ '')'' @ post
         \<and> (\<forall>c \<in> set ws. is_space c)
         \<and> (\<forall>c \<in> set ''t1''. c \<noteq> CHR '')'' \<and> c \<noteq> CHR 0x0A)"
    by (rule marker_line_iff [of "''x := 1; //  END-TODO(t1) rest''", THEN conjunct2,
          rule_format, OF r])
qed


section \<open>Properties of insert_submission_tags\<close>

text \<open>
  Claim C1 at a template with the payload line \<^verbatim>\<open>TODO\<close> and a submission with the
  payload lines \<^verbatim>\<open>x\<close> and \<^verbatim>\<open>y\<close>: both extractions and \<open>compare_tags\<close> pass, and
  the merged document holds \<^verbatim>\<open>TODO\<close> and \<^verbatim>\<open>y\<close> between the markers, not \<^verbatim>\<open>x\<close> and
  \<^verbatim>\<open>y\<close>.
\<close>

theorem insert_submission_tags_off_by_one:
  "extract_tags (''// BEGIN-TODO(a)'' @ [CHR 0x0A] @ ''TODO'' @ [CHR 0x0A] @ ''// END-TODO(a)'')
     = Inr [(''a'', 1, 3)]
   \<and> extract_tags (''// BEGIN-TODO(a)'' @ [CHR 0x0A] @ ''x'' @ [CHR 0x0A] @ ''y'' @ [CHR 0x0A]
                    @ ''// END-TODO(a)'')
     = Inr [(''a'', 1, 4)]
   \<and> compare_tags [(''a'', 1, 3)] [(''a'', 1, 4)] = Inr ()
   \<and> insert_submission_tags
        (''// BEGIN-TODO(a)'' @ [CHR 0x0A] @ ''TODO'' @ [CHR 0x0A] @ ''// END-TODO(a)'')
        (''// BEGIN-TODO(a)'' @ [CHR 0x0A] @ ''x'' @ [CHR 0x0A] @ ''y'' @ [CHR 0x0A]
           @ ''// END-TODO(a)'')
        [(''a'', 1, 3)] [(''a'', 1, 4)]
     = Inr (''// BEGIN-TODO(a)'' @ [CHR 0x0A] @ ''TODO'' @ [CHR 0x0A] @ ''y'' @ [CHR 0x0A]
             @ ''// END-TODO(a)'')"
  by code_simp

section \<open>What a successful extract_tags establishes\<close>

lemma begin_tags_append: "begin_tags (xs @ ys) = begin_tags xs @ begin_tags ys"
  by (induction xs) (auto split: option.splits marker_type.splits)

lemma begin_tags_snoc:
  "begin_tags (pre @ [l]) =
     (case tag_pattern_search l of Some (BEGIN, t) \<Rightarrow> begin_tags pre @ [t] | _ \<Rightarrow> begin_tags pre)"
  by (simp add: begin_tags_append split: option.splits marker_type.splits)

lemma scan_inv_distinct: "scan_inv pre st \<Longrightarrow> distinct (map fst st)"
  unfolding scan_inv_def by (elim conjE)

lemma scan_inv_order: "scan_inv pre st \<Longrightarrow> map fst st = begin_tags pre"
  unfolding scan_inv_def by (elim conjE)

lemma scan_inv_entry:
  "scan_inv pre st \<Longrightarrow> map_of st t = Some (b, eo) \<Longrightarrow>
     1 \<le> b \<and> b \<le> length pre \<and> tag_pattern_search (pre ! (b - 1)) = Some (BEGIN, t)
     \<and> (\<forall>e. eo = Some e \<longrightarrow>
           b < e \<and> e \<le> length pre \<and> tag_pattern_search (pre ! (e - 1)) = Some (END, t))"
  unfolding scan_inv_def by fast

lemma scan_inv_begin_line:
  "scan_inv pre st \<Longrightarrow> i < length pre \<Longrightarrow> tag_pattern_search (pre ! i) = Some (BEGIN, t) \<Longrightarrow>
     \<exists>eo. map_of st t = Some (Suc i, eo)"
  unfolding scan_inv_def by fast

lemma scan_inv_end_line:
  "scan_inv pre st \<Longrightarrow> i < length pre \<Longrightarrow> tag_pattern_search (pre ! i) = Some (END, t) \<Longrightarrow>
     \<exists>b. map_of st t = Some (b, Some (Suc i))"
  unfolding scan_inv_def by fast

lemma scan_invI:
  assumes "distinct (map fst st)" "map fst st = begin_tags pre"
    and "\<And>t b eo. map_of st t = Some (b, eo) \<Longrightarrow>
           1 \<le> b \<and> b \<le> length pre \<and> tag_pattern_search (pre ! (b - 1)) = Some (BEGIN, t)
           \<and> (\<forall>e. eo = Some e \<longrightarrow>
                 b < e \<and> e \<le> length pre \<and> tag_pattern_search (pre ! (e - 1)) = Some (END, t))"
    and "\<And>i t. i < length pre \<Longrightarrow> tag_pattern_search (pre ! i) = Some (BEGIN, t) \<Longrightarrow>
           \<exists>eo. map_of st t = Some (Suc i, eo)"
    and "\<And>i t. i < length pre \<Longrightarrow> tag_pattern_search (pre ! i) = Some (END, t) \<Longrightarrow>
           \<exists>b. map_of st t = Some (b, Some (Suc i))"
  shows "scan_inv pre st"
  unfolding scan_inv_def using assms by fast


lemma scan_inv_skip:
  assumes inv: "scan_inv pre st" and l: "tag_pattern_search l = None"
  shows "scan_inv (pre @ [l]) st"
proof -
  have 1: "distinct (map fst st)" using inv by (rule scan_inv_distinct)
  have 2: "map fst st = begin_tags (pre @ [l])"
    using scan_inv_order [OF inv] l by (simp add: begin_tags_snoc)
  have 3: "1 \<le> b \<and> b \<le> length (pre @ [l])
           \<and> tag_pattern_search ((pre @ [l]) ! (b - 1)) = Some (BEGIN, t')
           \<and> (\<forall>e. eo = Some e \<longrightarrow>
                 b < e \<and> e \<le> length (pre @ [l])
                 \<and> tag_pattern_search ((pre @ [l]) ! (e - 1)) = Some (END, t'))"
    if "map_of st t' = Some (b, eo)" for t' b eo
  proof -
    from that inv have "1 \<le> b \<and> b \<le> length pre
           \<and> tag_pattern_search (pre ! (b - 1)) = Some (BEGIN, t')
           \<and> (\<forall>e. eo = Some e \<longrightarrow>
                 b < e \<and> e \<le> length pre
                 \<and> tag_pattern_search (pre ! (e - 1)) = Some (END, t'))"
      by (intro scan_inv_entry)
    then show ?thesis by (auto simp: nth_append)
  qed
  have 4: "\<exists>eo. map_of st t' = Some (Suc i, eo)"
    if "i < length (pre @ [l])" "tag_pattern_search ((pre @ [l]) ! i) = Some (BEGIN, t')" for i t'
  proof (cases "i < length pre")
    case True
    with that show ?thesis using scan_inv_begin_line [OF inv, of i t'] by (simp add: nth_append)
  next
    case False
    with that have "i = length pre" by simp
    with that l show ?thesis by (simp add: nth_append)
  qed
  have 5: "\<exists>b. map_of st t' = Some (b, Some (Suc i))"
    if "i < length (pre @ [l])" "tag_pattern_search ((pre @ [l]) ! i) = Some (END, t')" for i t'
  proof (cases "i < length pre")
    case True
    with that show ?thesis using scan_inv_end_line [OF inv, of i t'] by (simp add: nth_append)
  next
    case False
    with that have "i = length pre" by simp
    with that l show ?thesis by (simp add: nth_append)
  qed
  show ?thesis using 1 2 3 4 5 by (rule scan_invI)
qed

lemma scan_inv_begin:
  assumes inv: "scan_inv pre st" and l: "tag_pattern_search l = Some (BEGIN, t)"
    and new: "map_of st t = None"
  shows "scan_inv (pre @ [l]) (AList.update t (Suc (length pre), None) st)"
proof -
  let ?st = "AList.update t (Suc (length pre), None) st"
  have nk: "t \<notin> set (map fst st)" using new by (simp add: map_of_eq_None_iff)
  have 1: "distinct (map fst ?st)" by (rule distinct_update) (rule scan_inv_distinct [OF inv])
  have 2: "map fst ?st = begin_tags (pre @ [l])"
    using scan_inv_order [OF inv] nk l by (simp add: update_keys begin_tags_snoc)
  have 3: "1 \<le> b \<and> b \<le> length (pre @ [l])
           \<and> tag_pattern_search ((pre @ [l]) ! (b - 1)) = Some (BEGIN, t')
           \<and> (\<forall>e. eo = Some e \<longrightarrow>
                 b < e \<and> e \<le> length (pre @ [l])
                 \<and> tag_pattern_search ((pre @ [l]) ! (e - 1)) = Some (END, t'))"
    if "map_of ?st t' = Some (b, eo)" for t' b eo
  proof (cases "t' = t")
    case True
    with that have "b = Suc (length pre)" "eo = None" by (simp_all add: update_conv')
    then show ?thesis using True l by simp
  next
    case False
    with that have "map_of st t' = Some (b, eo)" by (simp add: update_conv')
    with inv have "1 \<le> b \<and> b \<le> length pre
           \<and> tag_pattern_search (pre ! (b - 1)) = Some (BEGIN, t')
           \<and> (\<forall>e. eo = Some e \<longrightarrow>
                 b < e \<and> e \<le> length pre
                 \<and> tag_pattern_search (pre ! (e - 1)) = Some (END, t'))"
      by (intro scan_inv_entry)
    then show ?thesis by (auto simp: nth_append)
  qed
  have 4: "\<exists>eo. map_of ?st t' = Some (Suc i, eo)"
    if "i < length (pre @ [l])" "tag_pattern_search ((pre @ [l]) ! i) = Some (BEGIN, t')" for i t'
  proof (cases "i < length pre")
    case True
    with that obtain eo where m: "map_of st t' = Some (Suc i, eo)"
      using scan_inv_begin_line [OF inv, of i t'] by (auto simp: nth_append)
    with new have "t' \<noteq> t" by auto
    with m show ?thesis by (simp add: update_conv')
  next
    case False
    with that have "i = length pre" "t' = t" using l by (auto simp: nth_append)
    then show ?thesis by (simp add: update_conv')
  qed
  have 5: "\<exists>b. map_of ?st t' = Some (b, Some (Suc i))"
    if "i < length (pre @ [l])" "tag_pattern_search ((pre @ [l]) ! i) = Some (END, t')" for i t'
  proof (cases "i < length pre")
    case True
    with that obtain b where m: "map_of st t' = Some (b, Some (Suc i))"
      using scan_inv_end_line [OF inv, of i t'] by (auto simp: nth_append)
    with new have "t' \<noteq> t" by auto
    with m show ?thesis by (simp add: update_conv')
  next
    case False
    with that have "i = length pre" by simp
    with that l show ?thesis by (simp add: nth_append)
  qed
  show ?thesis using 1 2 3 4 5 by (rule scan_invI)
qed

lemma scan_inv_end:
  assumes inv: "scan_inv pre st" and l: "tag_pattern_search l = Some (END, t)"
    and opn: "map_of st t = Some (b0, None)"
  shows "scan_inv (pre @ [l]) (AList.update t (b0, Some (Suc (length pre))) st)"
proof -
  let ?st = "AList.update t (b0, Some (Suc (length pre))) st"
  have k: "t \<in> set (map fst st)" using opn by (metis map_of_eq_None_iff option.distinct(1) set_map)
  have b0: "1 \<le> b0" "b0 \<le> length pre" "tag_pattern_search (pre ! (b0 - 1)) = Some (BEGIN, t)"
    using scan_inv_entry [OF inv opn] by simp_all
  have 1: "distinct (map fst ?st)" by (rule distinct_update) (rule scan_inv_distinct [OF inv])
  have 2: "map fst ?st = begin_tags (pre @ [l])"
    using scan_inv_order [OF inv] k l by (simp add: update_keys begin_tags_snoc)
  have 3: "1 \<le> b \<and> b \<le> length (pre @ [l])
           \<and> tag_pattern_search ((pre @ [l]) ! (b - 1)) = Some (BEGIN, t')
           \<and> (\<forall>e. eo = Some e \<longrightarrow>
                 b < e \<and> e \<le> length (pre @ [l])
                 \<and> tag_pattern_search ((pre @ [l]) ! (e - 1)) = Some (END, t'))"
    if "map_of ?st t' = Some (b, eo)" for t' b eo
  proof (cases "t' = t")
    case True
    with that have "b = b0" "eo = Some (Suc (length pre))" by (simp_all add: update_conv')
    then show ?thesis using True l b0 by (auto simp: nth_append)
  next
    case False
    with that have "map_of st t' = Some (b, eo)" by (simp add: update_conv')
    with inv have "1 \<le> b \<and> b \<le> length pre
           \<and> tag_pattern_search (pre ! (b - 1)) = Some (BEGIN, t')
           \<and> (\<forall>e. eo = Some e \<longrightarrow>
                 b < e \<and> e \<le> length pre
                 \<and> tag_pattern_search (pre ! (e - 1)) = Some (END, t'))"
      by (intro scan_inv_entry)
    then show ?thesis by (auto simp: nth_append)
  qed
  have 4: "\<exists>eo. map_of ?st t' = Some (Suc i, eo)"
    if "i < length (pre @ [l])" "tag_pattern_search ((pre @ [l]) ! i) = Some (BEGIN, t')" for i t'
  proof (cases "i < length pre")
    case True
    with that obtain eo where m: "map_of st t' = Some (Suc i, eo)"
      using scan_inv_begin_line [OF inv, of i t'] by (auto simp: nth_append)
    show ?thesis
    proof (cases "t' = t")
      case True
      with m opn have "Suc i = b0" by simp
      with True show ?thesis by (simp add: update_conv')
    next
      case False
      with m show ?thesis by (simp add: update_conv')
    qed
  next
    case False
    with that have "i = length pre" by simp
    with that l show ?thesis by (simp add: nth_append)
  qed
  have 5: "\<exists>b. map_of ?st t' = Some (b, Some (Suc i))"
    if "i < length (pre @ [l])" "tag_pattern_search ((pre @ [l]) ! i) = Some (END, t')" for i t'
  proof (cases "i < length pre")
    case True
    with that obtain b where m: "map_of st t' = Some (b, Some (Suc i))"
      using scan_inv_end_line [OF inv, of i t'] by (auto simp: nth_append)
    with opn have "t' \<noteq> t" by auto
    with m show ?thesis by (simp add: update_conv')
  next
    case False
    with that have "i = length pre" "t' = t" using l by (auto simp: nth_append)
    then show ?thesis by (simp add: update_conv')
  qed
  show ?thesis using 1 2 3 4 5 by (rule scan_invI)
qed

lemma scan_inv_empty: "scan_inv [] []"
  by (simp add: scan_inv_def)

lemma scan_lines_inv:
  "scan_lines (Suc (length pre)) ls st = Inr st' \<Longrightarrow> scan_inv pre st \<Longrightarrow> scan_inv (pre @ ls) st'"
proof (induction ls arbitrary: pre st)
  case Nil
  then show ?case by simp
next
  case (Cons l ls)
  have step: "scan_lines (Suc (length (pre @ [l]))) ls st2 = Inr st' \<Longrightarrow> scan_inv (pre @ [l]) st2
      \<Longrightarrow> scan_inv (pre @ l # ls) st'" for st2
    using Cons.IH [of "pre @ [l]" st2] by simp
  show ?case
  proof (cases "tag_pattern_search l")
    case None
    with Cons.prems show ?thesis
      using step [of st] scan_inv_skip [of pre st l] by simp
  next
    case (Some m)
    obtain mt t where m: "m = (mt, t)" by (cases m)
    show ?thesis
    proof (cases mt)
      case BEGIN
      with Some m Cons.prems(1) have new: "map_of st t = None"
        and r: "scan_lines (Suc (Suc (length pre))) ls (AList.update t (Suc (length pre), None) st) = Inr st'"
        by (cases "map_of st t"; simp)+
      from scan_inv_begin [OF Cons.prems(2) _ new, of l] Some m BEGIN
      have "scan_inv (pre @ [l]) (AList.update t (Suc (length pre), None) st)" by simp
      with r show ?thesis using step by simp
    next
      case END
      with Some m Cons.prems(1) obtain b0 where opn: "map_of st t = Some (b0, None)"
        and r: "scan_lines (Suc (Suc (length pre))) ls (AList.update t (b0, Some (Suc (length pre))) st) = Inr st'"
        by (auto split: option.splits)
      from scan_inv_end [OF Cons.prems(2) _ opn, of l] Some m END
      have "scan_inv (pre @ [l]) (AList.update t (b0, Some (Suc (length pre))) st)" by simp
      with r show ?thesis using step by simp
    qed
  qed
qed

lemma check_closed_Inr:
  "check_closed st = Inr tags \<Longrightarrow> st = map (\<lambda>(t, b, e). (t, b, Some e)) tags"
  by (induction st arbitrary: tags rule: check_closed.induct) (auto split: sum.splits)

lemma check_closed_Inl:
  "check_closed st = Inl e \<Longrightarrow> \<exists>t b. (t, b, None) \<in> set st \<and> e = ValueError (unmatched_begin_msg t b)"
  by (induction st rule: check_closed.induct) (auto split: sum.splits)

lemma check_overlap_chain:
  "\<forall>(t, b, e) \<in> set xs. b < e \<Longrightarrow> check_overlap xs = Inr () \<Longrightarrow>
     sorted_wrt (\<lambda>x y. snd (snd x) \<le> fst (snd y)) xs"
proof (induction xs rule: check_overlap.induct)
  case (1 t1 b1 e1 t2 b2 e2 rest)
  from "1.prems" have le: "e1 \<le> b2" and r: "check_overlap ((t2, b2, e2) # rest) = Inr ()"
    by (auto split: if_splits)
  from "1.prems"(1) have lt: "b2 < e2" by simp
  have sw: "sorted_wrt (\<lambda>x y. snd (snd x) \<le> fst (snd y)) ((t2, b2, e2) # rest)"
    using "1.IH" le r "1.prems"(1) by simp
  then have "\<forall>y \<in> set rest. e2 \<le> fst (snd y)" by simp
  with le lt have "\<forall>y \<in> set rest. e1 \<le> fst (snd y)" by fastforce
  with sw le show ?case by simp
qed simp_all

lemma chain_no_overlap:
  fixes xs :: tag_map
  assumes sw: "sorted_wrt (\<lambda>x y. snd (snd x) \<le> fst (snd y)) xs"
    and lt: "\<forall>(t, b, e) \<in> set xs. b < e"
    and p: "(t1, b1, e1) \<in> set xs" and q: "(t2, b2, e2) \<in> set xs"
    and less: "b1 < b2"
  shows "e1 \<le> b2"
proof -
  from p obtain i where i: "i < length xs" "xs ! i = (t1, b1, e1)" by (auto simp: in_set_conv_nth)
  from q obtain j where j: "j < length xs" "xs ! j = (t2, b2, e2)" by (auto simp: in_set_conv_nth)
  have "i \<noteq> j" using i j less by auto
  then consider "i < j" | "j < i" by linarith
  then show ?thesis
  proof cases
    case 1
    with sw j have "snd (snd (xs ! i)) \<le> fst (snd (xs ! j))"
      unfolding sorted_wrt_iff_nth_less by blast
    with i j show ?thesis by simp
  next
    case 2
    with sw i have "snd (snd (xs ! j)) \<le> fst (snd (xs ! i))"
      unfolding sorted_wrt_iff_nth_less by blast
    with i j have "e2 \<le> b1" by simp
    moreover from lt q have "b2 < e2" by auto
    ultimately show ?thesis using less by simp
  qed
qed

lemma extract_tags_Inr:
  "extract_tags text = Inr tags \<longleftrightarrow>
     (\<exists>st. scan_lines 1 (splitlines text) [] = Inr st \<and> check_closed st = Inr tags
           \<and> check_overlap (sort_key snd tags) = Inr ())"
  unfolding extract_tags_def by (auto split: sum.splits)

lemma tags_fit_of_scan:
  assumes inv: "scan_inv lines st" and cl: "check_closed st = Inr tags"
    and ov: "check_overlap (sort_key snd tags) = Inr ()"
  shows "tags_fit lines tags"
proof -
  have st: "st = map (\<lambda>(t, b, e). (t, b, Some e)) tags" using cl by (rule check_closed_Inr)
  have keys: "map fst st = map fst tags" unfolding st by (induction tags) auto
  have d: "distinct (map fst tags)" using scan_inv_distinct [OF inv] keys by simp
  have o: "map fst tags = begin_tags lines" using scan_inv_order [OF inv] keys by simp
  have mem: "(t, b, e) \<in> set tags \<Longrightarrow> map_of st t = Some (b, Some e)" for t b e
  proof -
    assume "(t, b, e) \<in> set tags"
    then have "(t, b, Some e) \<in> set st" unfolding st by force
    then show ?thesis using scan_inv_distinct [OF inv] by simp
  qed
  have mem': "map_of st t = Some (b, eo) \<Longrightarrow> \<exists>e. eo = Some e \<and> (t, b, e) \<in> set tags" for t b eo
  proof -
    assume "map_of st t = Some (b, eo)"
    then have "(t, b, eo) \<in> set st" by (rule map_of_SomeD)
    then show ?thesis unfolding st by auto
  qed
  have e: "1 \<le> b \<and> b < e \<and> e \<le> length lines
           \<and> tag_pattern_search (lines ! (b - 1)) = Some (BEGIN, t)
           \<and> tag_pattern_search (lines ! (e - 1)) = Some (END, t)"
    if "(t, b, e) \<in> set tags" for t b e
    using scan_inv_entry [OF inv mem [OF that]] by simp
  have bl: "\<exists>e. (t, Suc i, e) \<in> set tags"
    if "i < length lines" "tag_pattern_search (lines ! i) = Some (BEGIN, t)" for i t
    using scan_inv_begin_line [OF inv that] mem' by blast
  have el: "\<exists>b. (t, b, Suc i) \<in> set tags"
    if "i < length lines" "tag_pattern_search (lines ! i) = Some (END, t)" for i t
    using scan_inv_end_line [OF inv that] mem' by blast
  have lt: "\<forall>(t, b, e) \<in> set (sort_key snd tags). b < e" using e by auto
  have sw: "sorted_wrt (\<lambda>x y. snd (snd x) \<le> fst (snd y)) (sort_key snd tags)"
    using check_overlap_chain [OF lt ov] .
  have no: "e1 < b2" if p: "(t1, b1, e1) \<in> set tags" and q: "(t2, b2, e2) \<in> set tags"
    and less: "b1 < b2" for t1 b1 e1 t2 b2 e2
  proof -
    have "e1 \<le> b2" using chain_no_overlap [OF sw lt _ _ less, of t1 e1 t2 e2] p q by simp
    moreover have "e1 \<noteq> b2"
    proof
      assume "e1 = b2"
      with e [OF p] e [OF q] show False by simp
    qed
    ultimately show ?thesis by simp
  qed
  show ?thesis unfolding tags_fit_def
  proof (intro conjI)
    show "distinct (map fst tags)" by (rule d)
    show "map fst tags = begin_tags lines" by (rule o)
    show "\<forall>(t, b, e)\<in>set tags. 1 \<le> b \<and> b < e \<and> e \<le> length lines
           \<and> tag_pattern_search (lines ! (b - 1)) = Some (BEGIN, t)
           \<and> tag_pattern_search (lines ! (e - 1)) = Some (END, t)"
      using e by blast
    show "\<forall>i<length lines. \<forall>t. tag_pattern_search (lines ! i) = Some (BEGIN, t) \<longrightarrow>
           (\<exists>e. (t, Suc i, e) \<in> set tags)"
      using bl by blast
    show "\<forall>i<length lines. \<forall>t. tag_pattern_search (lines ! i) = Some (END, t) \<longrightarrow>
           (\<exists>b. (t, b, Suc i) \<in> set tags)"
      using el by blast
    show "\<forall>(t1, b1, e1)\<in>set tags. \<forall>(t2, b2, e2)\<in>set tags. b1 < b2 \<longrightarrow> e1 < b2"
      using no by blast
  qed
qed

lemma extract_tags_fit:
  assumes "extract_tags text = Inr tags"
  shows "tags_fit (splitlines text) tags"
proof -
  from assms obtain st where s: "scan_lines 1 (splitlines text) [] = Inr st"
    and c: "check_closed st = Inr tags" and o: "check_overlap (sort_key snd tags) = Inr ()"
    unfolding extract_tags_Inr by blast
  have "scan_inv ([] @ splitlines text) st"
    by (rule scan_lines_inv [of "[]"]) (use s scan_inv_empty in simp_all)
  then show ?thesis using tags_fit_of_scan c o by simp
qed

lemma tags_fit_distinct: "tags_fit lines tags \<Longrightarrow> distinct (map fst tags)"
  unfolding tags_fit_def by (elim conjE)

lemma tags_fit_order: "tags_fit lines tags \<Longrightarrow> map fst tags = begin_tags lines"
  unfolding tags_fit_def by (elim conjE)

lemma tags_fit_entry:
  "tags_fit lines tags \<Longrightarrow> (t, b, e) \<in> set tags \<Longrightarrow>
     1 \<le> b \<and> b < e \<and> e \<le> length lines
     \<and> tag_pattern_search (lines ! (b - 1)) = Some (BEGIN, t)
     \<and> tag_pattern_search (lines ! (e - 1)) = Some (END, t)"
  unfolding tags_fit_def by fast

lemma tags_fit_begin_line:
  "tags_fit lines tags \<Longrightarrow> i < length lines \<Longrightarrow>
     tag_pattern_search (lines ! i) = Some (BEGIN, t) \<Longrightarrow> \<exists>e. (t, Suc i, e) \<in> set tags"
  unfolding tags_fit_def by fast

lemma tags_fit_end_line:
  "tags_fit lines tags \<Longrightarrow> i < length lines \<Longrightarrow>
     tag_pattern_search (lines ! i) = Some (END, t) \<Longrightarrow> \<exists>b. (t, b, Suc i) \<in> set tags"
  unfolding tags_fit_def by fast

lemma tags_fit_no_overlap:
  "tags_fit lines tags \<Longrightarrow> (t1, b1, e1) \<in> set tags \<Longrightarrow> (t2, b2, e2) \<in> set tags \<Longrightarrow>
     b1 < b2 \<Longrightarrow> e1 < b2"
  unfolding tags_fit_def by fast

lemma tags_fit_same_tag:
  assumes "tags_fit lines tags" "(t, b, e) \<in> set tags" "(t, b', e') \<in> set tags"
  shows "b = b' \<and> e = e'"
  using eq_key_imp_eq_value [OF tags_fit_distinct [OF assms(1)] assms(2) assms(3)] by simp

lemma tags_fit_only_begin:
  assumes fit: "tags_fit lines tags" and m: "(t, b, e) \<in> set tags" and i: "i < length lines"
  shows "tag_pattern_search (lines ! i) = Some (BEGIN, t) \<longleftrightarrow> Suc i = b"
proof
  assume "tag_pattern_search (lines ! i) = Some (BEGIN, t)"
  from tags_fit_begin_line [OF fit i this] obtain e' where "(t, Suc i, e') \<in> set tags" by blast
  from tags_fit_same_tag [OF fit this m] show "Suc i = b" by simp
next
  assume "Suc i = b"
  with tags_fit_entry [OF fit m] show "tag_pattern_search (lines ! i) = Some (BEGIN, t)" by auto
qed

lemma tags_fit_only_end:
  assumes fit: "tags_fit lines tags" and m: "(t, b, e) \<in> set tags" and i: "i < length lines"
  shows "tag_pattern_search (lines ! i) = Some (END, t) \<longleftrightarrow> Suc i = e"
proof
  assume "tag_pattern_search (lines ! i) = Some (END, t)"
  from tags_fit_end_line [OF fit i this] obtain b' where "(t, b', Suc i) \<in> set tags" by blast
  from tags_fit_same_tag [OF fit this m] show "Suc i = e" by simp
next
  assume "Suc i = e"
  with tags_fit_entry [OF fit m] show "tag_pattern_search (lines ! i) = Some (END, t)" by auto
qed

text \<open>
  Claim C7. A tag map returned by \<open>extract_tags\<close> has distinct tags; every tag
  has exactly one BEGIN line and exactly one END line in the document, which are
  its two line numbers, the END line after the BEGIN line; of two spans, the one
  that begins first ends no later than the other begins; and the tags are listed
  in the order of their BEGIN lines.
\<close>

theorem extract_tags_invariants:
  assumes "extract_tags text = Inr tags"
  shows "distinct (map fst tags)
     \<and> (\<forall>(t, b, e) \<in> set tags.
           1 \<le> b \<and> b < e \<and> e \<le> length (splitlines text)
           \<and> (\<forall>i < length (splitlines text).
                 tag_pattern_search (splitlines text ! i) = Some (BEGIN, t) \<longleftrightarrow> Suc i = b)
           \<and> (\<forall>i < length (splitlines text).
                 tag_pattern_search (splitlines text ! i) = Some (END, t) \<longleftrightarrow> Suc i = e))
     \<and> (\<forall>(t1, b1, e1) \<in> set tags. \<forall>(t2, b2, e2) \<in> set tags. b1 < b2 \<longrightarrow> e1 \<le> b2)
     \<and> map fst tags = begin_tags (splitlines text)"
proof -
  have fit: "tags_fit (splitlines text) tags" using assms by (rule extract_tags_fit)
  have 1: "distinct (map fst tags)" using fit by (rule tags_fit_distinct)
  have 2: "\<forall>(t, b, e) \<in> set tags.
           1 \<le> b \<and> b < e \<and> e \<le> length (splitlines text)
           \<and> (\<forall>i < length (splitlines text).
                 tag_pattern_search (splitlines text ! i) = Some (BEGIN, t) \<longleftrightarrow> Suc i = b)
           \<and> (\<forall>i < length (splitlines text).
                 tag_pattern_search (splitlines text ! i) = Some (END, t) \<longleftrightarrow> Suc i = e)"
    using tags_fit_entry [OF fit] tags_fit_only_begin [OF fit] tags_fit_only_end [OF fit]
    by (intro ballI) (simp add: case_prod_beta split_paired_all)
  have 3: "\<forall>(t1, b1, e1) \<in> set tags. \<forall>(t2, b2, e2) \<in> set tags. b1 < b2 \<longrightarrow> e1 \<le> b2"
    using tags_fit_no_overlap [OF fit] by (fastforce simp: less_imp_le)
  have 4: "map fst tags = begin_tags (splitlines text)" using fit by (rule tags_fit_order)
  show ?thesis using 1 2 3 4 by (intro conjI)
qed

theorem extract_tags_invariants_witness:
  "extract_tags (''// BEGIN-TODO(b)'' @ [CHR 0x0A] @ ''x'' @ [CHR 0x0A] @ ''// END-TODO(b)''
                  @ [CHR 0x0A] @ ''// BEGIN-TODO(a)'' @ [CHR 0x0A] @ ''// END-TODO(a)'')
     = Inr [(''b'', 1, 3), (''a'', 4, 5)]
   \<and> map fst [(''b'', 1::nat, 3::nat), (''a'', 4, 5)]
       = begin_tags (splitlines (''// BEGIN-TODO(b)'' @ [CHR 0x0A] @ ''x'' @ [CHR 0x0A]
           @ ''// END-TODO(b)'' @ [CHR 0x0A] @ ''// BEGIN-TODO(a)'' @ [CHR 0x0A]
           @ ''// END-TODO(a)''))"
proof -
  have h: "extract_tags (''// BEGIN-TODO(b)'' @ [CHR 0x0A] @ ''x'' @ [CHR 0x0A]
                  @ ''// END-TODO(b)'' @ [CHR 0x0A] @ ''// BEGIN-TODO(a)'' @ [CHR 0x0A]
                  @ ''// END-TODO(a)'')
     = Inr [(''b'', 1, 3), (''a'', 4, 5)]"
    by code_simp
  from extract_tags_invariants [OF h]
  have "map fst [(''b'', 1::nat, 3::nat), (''a'', 4, 5)]
       = begin_tags (splitlines (''// BEGIN-TODO(b)'' @ [CHR 0x0A] @ ''x'' @ [CHR 0x0A]
           @ ''// END-TODO(b)'' @ [CHR 0x0A] @ ''// BEGIN-TODO(a)'' @ [CHR 0x0A]
           @ ''// END-TODO(a)''))"
    by (elim conjE)
  with h show ?thesis by (rule conjI)
qed

lemma scan_lines_ValueError:
  "scan_lines n ls st = Inl e \<Longrightarrow> \<exists>m. e = ValueError m"
  by (induction ls arbitrary: n st)
     (auto split: option.splits marker_type.splits if_splits)

lemma check_overlap_ValueError: "check_overlap xs = Inl e \<Longrightarrow> \<exists>m. e = ValueError m"
  by (induction xs rule: check_overlap.induct) (auto split: if_splits)

lemma extract_tags_ValueError: "extract_tags text = Inl e \<Longrightarrow> \<exists>m. e = ValueError m"
  unfolding extract_tags_def
  by (auto split: sum.splits dest: scan_lines_ValueError check_closed_Inl check_overlap_ValueError)

lemma extract_tags_fails_if:
  assumes "\<And>tags. extract_tags text = Inr tags \<Longrightarrow> False"
  shows "\<exists>m. extract_tags text = Inl (ValueError m)"
proof (cases "extract_tags text")
  case (Inl e)
  with extract_tags_ValueError show ?thesis by blast
next
  case (Inr tags)
  with assms show ?thesis by blast
qed

text \<open>
  Claim C5. \<open>extract_tags\<close> raises on every document with a BEGIN marker whose
  tag has no END marker, an END marker whose tag has no BEGIN marker before it,
  two BEGIN markers or two END markers with the same tag, a BEGIN marker
  between the BEGIN and the END marker of another tag, or, once the scan has
  paired the markers, two spans of which the one sorted first ends after the
  other begins.
\<close>

theorem extract_tags_rejects_malformed:
  assumes "lines = splitlines text"
  shows
   "((\<exists>i < length lines. \<exists>t. tag_pattern_search (lines ! i) = Some (BEGIN, t)
         \<and> (\<forall>j < length lines. tag_pattern_search (lines ! j) \<noteq> Some (END, t)))
     \<or> (\<exists>i < length lines. \<exists>t. tag_pattern_search (lines ! i) = Some (END, t)
         \<and> (\<forall>j < i. tag_pattern_search (lines ! j) \<noteq> Some (BEGIN, t)))
     \<or> (\<exists>i j mt t. i < j \<and> j < length lines
         \<and> tag_pattern_search (lines ! i) = Some (mt, t)
         \<and> tag_pattern_search (lines ! j) = Some (mt, t))
     \<or> (\<exists>i j k t1 t2. i < j \<and> j < k \<and> k < length lines
         \<and> tag_pattern_search (lines ! i) = Some (BEGIN, t1)
         \<and> tag_pattern_search (lines ! j) = Some (BEGIN, t2)
         \<and> tag_pattern_search (lines ! k) = Some (END, t1))
     \<or> (\<exists>open_tags tags. scan_lines 1 lines [] = Inr open_tags
         \<and> check_closed open_tags = Inr tags
         \<and> (\<exists>(t1, b1, e1) \<in> set tags. \<exists>(t2, b2, e2) \<in> set tags.
               (b1, e1) < (b2, e2) \<and> e1 > b2)))
    \<longrightarrow> (\<exists>m. extract_tags text = Inl (ValueError m))"
proof (intro impI extract_tags_fails_if)
  fix tags
  assume ok: "extract_tags text = Inr tags"
  have fit: "tags_fit lines tags" using ok assms extract_tags_fit by simp
  assume "(\<exists>i < length lines. \<exists>t. tag_pattern_search (lines ! i) = Some (BEGIN, t)
         \<and> (\<forall>j < length lines. tag_pattern_search (lines ! j) \<noteq> Some (END, t)))
     \<or> (\<exists>i < length lines. \<exists>t. tag_pattern_search (lines ! i) = Some (END, t)
         \<and> (\<forall>j < i. tag_pattern_search (lines ! j) \<noteq> Some (BEGIN, t)))
     \<or> (\<exists>i j mt t. i < j \<and> j < length lines
         \<and> tag_pattern_search (lines ! i) = Some (mt, t)
         \<and> tag_pattern_search (lines ! j) = Some (mt, t))
     \<or> (\<exists>i j k t1 t2. i < j \<and> j < k \<and> k < length lines
         \<and> tag_pattern_search (lines ! i) = Some (BEGIN, t1)
         \<and> tag_pattern_search (lines ! j) = Some (BEGIN, t2)
         \<and> tag_pattern_search (lines ! k) = Some (END, t1))
     \<or> (\<exists>open_tags tags. scan_lines 1 lines [] = Inr open_tags
         \<and> check_closed open_tags = Inr tags
         \<and> (\<exists>(t1, b1, e1) \<in> set tags. \<exists>(t2, b2, e2) \<in> set tags.
               (b1, e1) < (b2, e2) \<and> e1 > b2))"
  then show False
  proof (elim disjE)
    assume "\<exists>i < length lines. \<exists>t. tag_pattern_search (lines ! i) = Some (BEGIN, t)
         \<and> (\<forall>j < length lines. tag_pattern_search (lines ! j) \<noteq> Some (END, t))"
    then obtain i t where unmatched_begin: "i < length lines"
        "tag_pattern_search (lines ! i) = Some (BEGIN, t)"
        "\<forall>j < length lines. tag_pattern_search (lines ! j) \<noteq> Some (END, t)"
      by blast
    from tags_fit_begin_line [OF fit unmatched_begin(1,2)] obtain e
      where m: "(t, Suc i, e) \<in> set tags" by blast
    from tags_fit_entry [OF fit m]
    have "e - 1 < length lines" "tag_pattern_search (lines ! (e - 1)) = Some (END, t)" by auto
    with unmatched_begin(3) show False by blast
  next
    assume "\<exists>i < length lines. \<exists>t. tag_pattern_search (lines ! i) = Some (END, t)
         \<and> (\<forall>j < i. tag_pattern_search (lines ! j) \<noteq> Some (BEGIN, t))"
    then obtain i t where unmatched_end: "i < length lines"
        "tag_pattern_search (lines ! i) = Some (END, t)"
        "\<forall>j < i. tag_pattern_search (lines ! j) \<noteq> Some (BEGIN, t)"
      by blast
    from tags_fit_end_line [OF fit unmatched_end(1,2)] obtain b
      where m: "(t, b, Suc i) \<in> set tags" by blast
    from tags_fit_entry [OF fit m]
    have "b - 1 < i" "tag_pattern_search (lines ! (b - 1)) = Some (BEGIN, t)" by auto
    with unmatched_end(3) show False by blast
  next
    assume "\<exists>i j mt t. i < j \<and> j < length lines
         \<and> tag_pattern_search (lines ! i) = Some (mt, t)
         \<and> tag_pattern_search (lines ! j) = Some (mt, t)"
    then obtain i j mt t where duplicate: "i < j" "j < length lines"
        "tag_pattern_search (lines ! i) = Some (mt, t)"
        "tag_pattern_search (lines ! j) = Some (mt, t)"
      by blast
    have i: "i < length lines" using duplicate(1,2) by simp
    show False
    proof (cases mt)
      case BEGIN
      from tags_fit_begin_line [OF fit i] duplicate(3) BEGIN obtain e
        where 1: "(t, Suc i, e) \<in> set tags" by blast
      from tags_fit_begin_line [OF fit duplicate(2)] duplicate(4) BEGIN obtain e'
        where 2: "(t, Suc j, e') \<in> set tags" by blast
      from tags_fit_same_tag [OF fit 1 2] duplicate(1) show False by simp
    next
      case END
      from tags_fit_end_line [OF fit i] duplicate(3) END obtain b
        where 1: "(t, b, Suc i) \<in> set tags" by blast
      from tags_fit_end_line [OF fit duplicate(2)] duplicate(4) END obtain b'
        where 2: "(t, b', Suc j) \<in> set tags" by blast
      from tags_fit_same_tag [OF fit 1 2] duplicate(1) show False by simp
    qed
  next
    assume "\<exists>i j k t1 t2. i < j \<and> j < k \<and> k < length lines
         \<and> tag_pattern_search (lines ! i) = Some (BEGIN, t1)
         \<and> tag_pattern_search (lines ! j) = Some (BEGIN, t2)
         \<and> tag_pattern_search (lines ! k) = Some (END, t1)"
    then obtain i j k t1 t2 where nested: "i < j" "j < k" "k < length lines"
        "tag_pattern_search (lines ! i) = Some (BEGIN, t1)"
        "tag_pattern_search (lines ! j) = Some (BEGIN, t2)"
        "tag_pattern_search (lines ! k) = Some (END, t1)"
      by blast
    have i: "i < length lines" and j: "j < length lines" using nested(1-3) by simp_all
    from tags_fit_begin_line [OF fit i nested(4)] obtain e1
      where 1: "(t1, Suc i, e1) \<in> set tags" by blast
    from tags_fit_begin_line [OF fit j nested(5)] obtain e2
      where 2: "(t2, Suc j, e2) \<in> set tags" by blast
    from tags_fit_end_line [OF fit nested(3,6)] obtain b1
      where 3: "(t1, b1, Suc k) \<in> set tags" by blast
    from tags_fit_same_tag [OF fit 1 3] have "e1 = Suc k" by simp
    moreover from tags_fit_no_overlap [OF fit 1 2] nested(1) have "e1 < Suc j" by simp
    ultimately show False using nested(2) by simp
  next
    assume "\<exists>open_tags tags. scan_lines 1 lines [] = Inr open_tags
         \<and> check_closed open_tags = Inr tags
         \<and> (\<exists>(t1, b1, e1) \<in> set tags. \<exists>(t2, b2, e2) \<in> set tags.
               (b1, e1) < (b2, e2) \<and> e1 > b2)"
    then obtain open_tags tags' where sc: "scan_lines 1 lines [] = Inr open_tags"
        "check_closed open_tags = Inr tags'"
      and ex: "\<exists>(t1, b1, e1) \<in> set tags'. \<exists>(t2, b2, e2) \<in> set tags'.
               (b1, e1) < (b2, e2) \<and> e1 > b2"
      by blast
    from ex obtain t1 b1 e1 t2 b2 e2 where overlap:
        "(t1, b1, e1) \<in> set tags'" "(t2, b2, e2) \<in> set tags'"
        "(b1, e1) < (b2, e2)" "e1 > b2"
      by (auto simp: split_paired_all)
    from ok obtain st where "scan_lines 1 (splitlines text) [] = Inr st"
      "check_closed st = Inr tags"
      unfolding extract_tags_Inr by blast
    with sc assms have same: "tags' = tags" by simp
    note p = overlap(1) [unfolded same] and q = overlap(2) [unfolded same]
    from overlap(3) have "b1 < b2 \<or> (b1 = b2 \<and> e1 < e2)"
      by (auto simp: less_prod_def)
    then consider "b1 < b2" | "b1 = b2" "e1 < e2" by blast
    then show False
    proof cases
      case 1
      from tags_fit_no_overlap [OF fit p q 1] overlap(4) show False by simp
    next
      case 2
      from tags_fit_entry [OF fit p] tags_fit_entry [OF fit q] 2(1) have "t1 = t2" by simp
      with tags_fit_same_tag [OF fit p] q 2(2) show False by auto
    qed
  qed
qed

theorem extract_tags_rejects_malformed_witness:
  "\<exists>m. extract_tags (''// BEGIN-TODO(a)'' @ [CHR 0x0A] @ ''// BEGIN-TODO(b)'' @ [CHR 0x0A]
                       @ ''// END-TODO(a)'' @ [CHR 0x0A] @ ''// END-TODO(b)'')
         = Inl (ValueError m)"
proof (rule extract_tags_rejects_malformed [OF refl, THEN mp])
  have l: "splitlines (''// BEGIN-TODO(a)'' @ [CHR 0x0A] @ ''// BEGIN-TODO(b)'' @ [CHR 0x0A]
                       @ ''// END-TODO(a)'' @ [CHR 0x0A] @ ''// END-TODO(b)'')
           = [''// BEGIN-TODO(a)'', ''// BEGIN-TODO(b)'', ''// END-TODO(a)'', ''// END-TODO(b)'']"
    by code_simp
  have 1: "tag_pattern_search ''// BEGIN-TODO(a)'' = Some (BEGIN, ''a'')" by code_simp
  have 2: "tag_pattern_search ''// BEGIN-TODO(b)'' = Some (BEGIN, ''b'')" by code_simp
  have 3: "tag_pattern_search ''// END-TODO(a)'' = Some (END, ''a'')" by code_simp
  let ?lines = "splitlines (''// BEGIN-TODO(a)'' @ [CHR 0x0A] @ ''// BEGIN-TODO(b)'' @ [CHR 0x0A]
                       @ ''// END-TODO(a)'' @ [CHR 0x0A] @ ''// END-TODO(b)'')"
  have "(0::nat) < 1 \<and> (1::nat) < 2 \<and> 2 < length ?lines
         \<and> tag_pattern_search (?lines ! 0) = Some (BEGIN, ''a'')
         \<and> tag_pattern_search (?lines ! 1) = Some (BEGIN, ''b'')
         \<and> tag_pattern_search (?lines ! 2) = Some (END, ''a'')"
    unfolding l using 1 2 3 by simp
  then have nested: "\<exists>i j k t1 t2. i < j \<and> j < k \<and> k < length ?lines
         \<and> tag_pattern_search (?lines ! i) = Some (BEGIN, t1)
         \<and> tag_pattern_search (?lines ! j) = Some (BEGIN, t2)
         \<and> tag_pattern_search (?lines ! k) = Some (END, t1)"
    by (intro exI)
  show "(\<exists>i < length ?lines. \<exists>t. tag_pattern_search (?lines ! i) = Some (BEGIN, t)
         \<and> (\<forall>j < length ?lines. tag_pattern_search (?lines ! j) \<noteq> Some (END, t)))
     \<or> (\<exists>i < length ?lines. \<exists>t. tag_pattern_search (?lines ! i) = Some (END, t)
         \<and> (\<forall>j < i. tag_pattern_search (?lines ! j) \<noteq> Some (BEGIN, t)))
     \<or> (\<exists>i j mt t. i < j \<and> j < length ?lines
         \<and> tag_pattern_search (?lines ! i) = Some (mt, t)
         \<and> tag_pattern_search (?lines ! j) = Some (mt, t))
     \<or> (\<exists>i j k t1 t2. i < j \<and> j < k \<and> k < length ?lines
         \<and> tag_pattern_search (?lines ! i) = Some (BEGIN, t1)
         \<and> tag_pattern_search (?lines ! j) = Some (BEGIN, t2)
         \<and> tag_pattern_search (?lines ! k) = Some (END, t1))
     \<or> (\<exists>open_tags tags. scan_lines 1 ?lines [] = Inr open_tags
         \<and> check_closed open_tags = Inr tags
         \<and> (\<exists>(t1, b1, e1) \<in> set tags. \<exists>(t2, b2, e2) \<in> set tags.
               (b1, e1) < (b2, e2) \<and> e1 > b2))"
    using nested by (intro disjI2 [OF disjI2 [OF disjI2 [OF disjI1]]])
qed

section \<open>Segments, gaps and spans\<close>

lemma slice_append: "i \<le> j \<Longrightarrow> j \<le> k \<Longrightarrow> slice xs i j @ slice xs j k = slice xs i k"
proof -
  assume a: "i \<le> j" "j \<le> k"
  have "take (k - i) (drop i xs) = take ((j - i) + (k - j)) (drop i xs)" using a by simp
  also have "\<dots> = take (j - i) (drop i xs) @ take (k - j) (drop (j - i) (drop i xs))"
    by (rule take_add)
  also have "drop (j - i) (drop i xs) = drop j xs" using a by simp
  finally show ?thesis by (simp add: slice_def)
qed

lemma slice_drop: "i \<le> j \<Longrightarrow> slice xs i j @ drop j xs = drop i xs"
proof -
  assume a: "i \<le> j"
  have "take (j - i) (drop i xs) @ drop (j - i) (drop i xs) = drop i xs"
    by (rule append_take_drop_id)
  moreover have "drop (j - i) (drop i xs) = drop j xs" using a by simp
  ultimately show ?thesis by (simp add: slice_def)
qed

lemma slice_nonempty: "j \<le> length xs \<Longrightarrow> slice xs i j \<noteq> [] \<longleftrightarrow> i < j"
  by (auto simp: slice_def)

lemma in_set_slice:
  "l \<in> set (slice xs i j) \<Longrightarrow> \<exists>k. i \<le> k \<and> k < j \<and> k < length xs \<and> l = xs ! k"
proof -
  assume "l \<in> set (slice xs i j)"
  then obtain m where m: "m < length (slice xs i j)" "slice xs i j ! m = l"
    by (auto simp: in_set_conv_nth)
  then have "m < j - i" "i + m < length xs" by (auto simp: slice_def)
  moreover from m this have "l = xs ! (i + m)" by (auto simp: slice_def)
  ultimately show ?thesis by (intro exI [of _ "i + m"]) auto
qed

lemma in_set_drop:
  "l \<in> set (drop i xs) \<Longrightarrow> \<exists>k. i \<le> k \<and> k < length xs \<and> l = xs ! k"
proof -
  assume "l \<in> set (drop i xs)"
  then obtain m where m: "m < length (drop i xs)" "drop i xs ! m = l"
    by (auto simp: in_set_conv_nth)
  then have "i + m < length xs" "l = xs ! (i + m)" by auto
  then show ?thesis by (intro exI [of _ "i + m"]) auto
qed

lemma spans_ok_le: "spans_ok n cur spans \<Longrightarrow> cur \<le> n"
proof (induction spans arbitrary: cur)
  case Nil
  then show ?case by simp
next
  case (Cons p spans)
  obtain b e where p: "p = (b, e)" by (cases p)
  with Cons.prems have "cur < b" "b < e" "spans_ok n e spans" by simp_all
  with Cons.IH [of e] show ?case by simp
qed

lemma spans_ok_bounds:
  "spans_ok n cur spans \<Longrightarrow> (b, e) \<in> set spans \<Longrightarrow> cur < b \<and> b < e \<and> e \<le> n"
proof (induction spans arbitrary: cur)
  case Nil
  then show ?case by simp
next
  case (Cons p spans)
  obtain b' e' where p: "p = (b', e')" by (cases p)
  show ?case
  proof (cases "(b, e) = p")
    case True
    with Cons.prems p spans_ok_le [of n e' spans] show ?thesis by auto
  next
    case False
    with Cons.prems p have "spans_ok n e' spans" "(b, e) \<in> set spans" "cur < e'" by auto
    with Cons.IH [of e'] show ?thesis by auto
  qed
qed

lemma spans_ok_sorted:
  fixes xs :: "(nat \<times> nat) list"
  assumes "sorted xs" "distinct xs" "cur \<le> n"
    and "\<forall>p \<in> set xs. cur < fst p \<and> fst p < snd p \<and> snd p \<le> n"
    and "\<forall>p \<in> set xs. \<forall>q \<in> set xs. fst p < fst q \<longrightarrow> snd p < fst q"
    and "\<forall>p \<in> set xs. \<forall>q \<in> set xs. fst p = fst q \<longrightarrow> p = q"
  shows "spans_ok n cur xs"
  using assms
proof (induction xs arbitrary: cur)
  case Nil
  then show ?case by simp
next
  case (Cons p xs)
  obtain b e where p: "p = (b, e)" by (cases p)
  have after: "e < fst q" if q: "q \<in> set xs" for q
  proof -
    from Cons.prems(1) q have "p \<le> q" by simp
    then have "b \<le> fst q" using p by (cases q) (auto simp: less_eq_prod_def)
    moreover have "b \<noteq> fst q"
    proof
      assume "b = fst q"
      with Cons.prems(6) q p have "p = q" by simp
      with Cons.prems(2) q show False by simp
    qed
    ultimately have "b < fst q" by simp
    with Cons.prems(5) q p show ?thesis by fastforce
  qed
  have "spans_ok n e xs"
  proof (rule Cons.IH)
    show "sorted xs" using Cons.prems(1) by simp
    show "distinct xs" using Cons.prems(2) by simp
    show "e \<le> n" using Cons.prems(4) p by simp
    show "\<forall>p \<in> set xs. e < fst p \<and> fst p < snd p \<and> snd p \<le> n"
      using after Cons.prems(4) by simp
    show "\<forall>p \<in> set xs. \<forall>q \<in> set xs. fst p < fst q \<longrightarrow> snd p < fst q"
      using Cons.prems(5) by simp
    show "\<forall>p \<in> set xs. \<forall>q \<in> set xs. fst p = fst q \<longrightarrow> p = q"
      using Cons.prems(6) by simp
  qed
  with Cons.prems(4) p show ?case by simp
qed

lemma tags_fit_spans_ok:
  assumes fit: "tags_fit lines tags"
  shows "spans_ok (length lines) 0 (sort (map snd tags))"
proof (rule spans_ok_sorted)
  let ?sp = "sort (map snd tags)"
  have mem: "\<exists>t. (t, fst p, snd p) \<in> set tags" if "p \<in> set ?sp" for p
    using that by force
  show "sorted ?sp" by simp
  have inj: "inj_on snd (set tags)"
  proof (rule inj_onI)
    fix x y assume x: "x \<in> set tags" and y: "y \<in> set tags" and eq: "snd x = snd y"
    obtain t b e where xe: "x = (t, b, e)" by (cases x)
    obtain t' b' e' where ye: "y = (t', b', e')" by (cases y)
    from tags_fit_entry [OF fit x [unfolded xe]] tags_fit_entry [OF fit y [unfolded ye]] eq xe ye
    have "t = t'" by simp
    with eq xe ye show "x = y" by simp
  qed
  have "distinct tags" using tags_fit_distinct [OF fit] by (rule distinct_map [THEN iffD1, THEN conjunct1])
  with inj have "distinct (map snd tags)" by (simp add: distinct_map)
  then show "distinct ?sp" by simp
  show "0 \<le> length lines" by simp
  show "\<forall>p \<in> set ?sp. 0 < fst p \<and> fst p < snd p \<and> snd p \<le> length lines"
  proof
    fix p assume "p \<in> set ?sp"
    from mem [OF this] obtain t where "(t, fst p, snd p) \<in> set tags" by blast
    from tags_fit_entry [OF fit this]
    show "0 < fst p \<and> fst p < snd p \<and> snd p \<le> length lines" by simp
  qed
  show "\<forall>p \<in> set ?sp. \<forall>q \<in> set ?sp. fst p < fst q \<longrightarrow> snd p < fst q"
  proof (intro ballI impI)
    fix p q assume "p \<in> set ?sp" "q \<in> set ?sp" and less: "fst p < fst q"
    with mem obtain t t' where "(t, fst p, snd p) \<in> set tags" "(t', fst q, snd q) \<in> set tags"
      by blast
    from tags_fit_no_overlap [OF fit this less] show "snd p < fst q" .
  qed
  show "\<forall>p \<in> set ?sp. \<forall>q \<in> set ?sp. fst p = fst q \<longrightarrow> p = q"
  proof (intro ballI impI)
    fix p q assume "p \<in> set ?sp" "q \<in> set ?sp" and eq: "fst p = fst q"
    with mem obtain t t' where m: "(t, fst p, snd p) \<in> set tags" "(t', fst q, snd q) \<in> set tags"
      by blast
    from tags_fit_entry [OF fit m(1)] tags_fit_entry [OF fit m(2)] eq have "t = t'" by simp
    with m(2) have "(t, fst q, snd q) \<in> set tags" by simp
    from tags_fit_same_tag [OF fit m(1) this] have "snd p = snd q" by simp
    with eq show "p = q" by (simp add: prod_eq_iff)
  qed
qed

lemma segments_loop_gaps:
  "spans_ok (length lines) cur spans \<Longrightarrow>
     segments_loop lines spans cur acc
       = acc @ map (join [CHR 0x0A]) (filter (\<lambda>g. g \<noteq> []) (gaps lines spans cur))"
proof (induction spans arbitrary: cur acc)
  case Nil
  then show ?case by simp
next
  case (Cons p spans)
  obtain b e where p: "p = (b, e)" by (cases p)
  from Cons.prems p have ok: "cur < b" "b < e" "spans_ok (length lines) e spans" by simp_all
  from spans_ok_le [OF ok(3)] ok(2) have "b - 1 \<le> length lines" by simp
  then have ne: "slice lines cur (b - 1) \<noteq> [] \<longleftrightarrow> cur < b - 1" by (rule slice_nonempty)
  show ?case unfolding p using Cons.IH [OF ok(3)] ne by simp
qed

lemma weave_gaps:
  "spans_ok (length lines) cur spans \<Longrightarrow>
     weave (gaps lines spans cur) (map (span_lines lines) spans) = drop cur lines"
proof (induction spans arbitrary: cur)
  case Nil
  then show ?case by simp
next
  case (Cons p spans)
  obtain b e where p: "p = (b, e)" by (cases p)
  from Cons.prems p have ok: "cur < b" "b < e" "spans_ok (length lines) e spans" by simp_all
  have le1: "cur \<le> b - 1" and le2: "b - 1 \<le> e" using ok(1,2) by simp_all
  have "slice lines cur (b - 1) @ slice lines (b - 1) e = slice lines cur e"
    using le1 le2 by (rule slice_append)
  moreover have "slice lines cur e @ drop e lines = drop cur lines"
    by (rule slice_drop) (use le1 le2 in simp)
  ultimately have "slice lines cur (b - 1) @ slice lines (b - 1) e @ drop e lines = drop cur lines"
    by (simp only: append_assoc [symmetric])
  then show ?case unfolding p using Cons.IH [OF ok(3)] by (simp add: span_lines_def)
qed

lemma length_gaps: "length (gaps lines spans cur) = Suc (length spans)"
  by (induction spans arbitrary: cur) auto

lemma gaps_outside_spans:
  "spans_ok (length lines) cur spans \<Longrightarrow> g \<in> set (gaps lines spans cur) \<Longrightarrow> l \<in> set g \<Longrightarrow>
     \<exists>k. cur \<le> k \<and> k < length lines \<and> l = lines ! k
         \<and> (\<forall>p \<in> set spans. Suc k < fst p \<or> snd p \<le> k)"
proof (induction spans arbitrary: cur)
  case Nil
  then have "l \<in> set (drop cur lines)" by simp
  from in_set_drop [OF this] show ?case by auto
next
  case (Cons p spans)
  obtain b e where p: "p = (b, e)" by (cases p)
  from Cons.prems(1) p have ok: "cur < b" "b < e" "spans_ok (length lines) e spans" by simp_all
  from Cons.prems(2) p consider "g = slice lines cur (b - 1)" | "g \<in> set (gaps lines spans e)"
    by auto
  then show ?case
  proof cases
    case 1
    with Cons.prems(3) have "l \<in> set (slice lines cur (b - 1))" by simp
    from in_set_slice [OF this] obtain k
      where k: "cur \<le> k" "k < b - 1" "k < length lines" "l = lines ! k" by (elim exE conjE)
    have "Suc k < fst q \<or> snd q \<le> k" if q: "q \<in> set (p # spans)" for q
    proof (cases "q = p")
      case True
      have "Suc k < b" using k(2) by simp
      with p True show ?thesis by simp
    next
      case False
      with q have "(fst q, snd q) \<in> set spans" by simp
      from spans_ok_bounds [OF ok(3) this] ok(2) k(2) have "Suc k < fst q" by linarith
      then show ?thesis by simp
    qed
    then have "\<forall>q \<in> set (p # spans). Suc k < fst q \<or> snd q \<le> k" by (rule ballI)
    with k(1,3,4) show ?thesis by (intro exI [of _ k] conjI)
  next
    case 2
    from Cons.IH [OF ok(3) 2 Cons.prems(3)] obtain k
      where k: "e \<le> k" "k < length lines" "l = lines ! k"
        "\<forall>q \<in> set spans. Suc k < fst q \<or> snd q \<le> k" by (elim exE conjE)
    have "\<forall>q \<in> set (p # spans). Suc k < fst q \<or> snd q \<le> k" using k(1,4) p by simp
    moreover have "cur \<le> k" using k(1) ok(1,2) by simp
    ultimately show ?thesis using k(2,3) by (intro exI [of _ k] conjI)
  qed
qed

lemma split_nl_nonempty: "split_nl s \<noteq> []"
  by (induction s) auto

lemma split_nl_line: "CHR 0x0A \<notin> set x \<Longrightarrow> split_nl x = [x]"
  by (induction x) auto

lemma split_nl_append:
  "CHR 0x0A \<notin> set x \<Longrightarrow> split_nl (x @ CHR 0x0A # r) = x # split_nl r"
  by (induction x) auto

lemma split_nl_join:
  "xs \<noteq> [] \<Longrightarrow> \<forall>x \<in> set xs. CHR 0x0A \<notin> set x \<Longrightarrow> split_nl (join [CHR 0x0A] xs) = xs"
proof (induction "[CHR 0x0A]" xs rule: join.induct)
  case 1
  then show ?case by simp
next
  case (2 x)
  then show ?case by (simp add: split_nl_line)
next
  case (3 x y ys)
  then show ?case by (simp add: split_nl_append)
qed

lemma splitlines_from_no_linebreak:
  "\<forall>c \<in> set cur. \<not> is_linebreak c \<Longrightarrow> l \<in> set (splitlines_from cur s) \<Longrightarrow>
     \<forall>c \<in> set l. \<not> is_linebreak c"
proof (induction cur s rule: splitlines_from.induct)
  case (1 cur)
  then show ?case by (cases "cur = []") simp_all
next
  case (2 cur c cs)
  note cur = "2.prems"(1)
  have empty: "\<forall>c \<in> set ([]::string). \<not> is_linebreak c" by simp
  show ?case
  proof (cases "c = CHR 0x0D")
    case True
    show ?thesis
    proof (cases cs)
      case Nil
      have "splitlines_from cur (c # cs) = [cur]" using True Nil by simp
      with "2.prems" show ?thesis by simp
    next
      case (Cons d ds)
      show ?thesis
      proof (cases "d = CHR 0x0A")
        case T: True
        have "splitlines_from cur (c # cs) = cur # splitlines_from [] ds"
          using True Cons T by simp
        with "2.prems"(2) have "l = cur \<or> l \<in> set (splitlines_from [] ds)" by simp
        then show ?thesis using cur "2.IH"(1) [OF True Cons T empty] by blast
      next
        case F: False
        have "splitlines_from cur (c # cs) = cur # splitlines_from [] cs"
          using True Cons F by simp
        with "2.prems"(2) have "l = cur \<or> l \<in> set (splitlines_from [] cs)" by simp
        then show ?thesis using cur "2.IH"(2) [OF True Cons F empty] by blast
      qed
    qed
  next
    case False
    show ?thesis
    proof (cases "is_linebreak c")
      case True
      have "splitlines_from cur (c # cs) = cur # splitlines_from [] cs"
        using False True by simp
      with "2.prems"(2) have "l = cur \<or> l \<in> set (splitlines_from [] cs)" by simp
      then show ?thesis using cur "2.IH"(3) [OF False True empty] by blast
    next
      case F: False
      have "splitlines_from cur (c # cs) = splitlines_from (cur @ [c]) cs"
        using False F by simp
      with "2.prems"(2) have m: "l \<in> set (splitlines_from (cur @ [c]) cs)" by simp
      have "\<forall>x \<in> set (cur @ [c]). \<not> is_linebreak x" using cur F by simp
      from "2.IH"(4) [OF False F this m] show ?thesis .
    qed
  qed
qed

lemma splitlines_no_LF: "l \<in> set (splitlines text) \<Longrightarrow> CHR 0x0A \<notin> set l"
proof -
  assume "l \<in> set (splitlines text)"
  then have "\<forall>c \<in> set l. \<not> is_linebreak c"
    unfolding splitlines_def using splitlines_from_no_linebreak [of "[]"] by simp
  moreover have "is_linebreak (CHR 0x0A)" by (simp add: is_linebreak_def)
  ultimately show ?thesis by blast
qed

lemma extract_tags_spans_ok:
  "extract_tags text = Inr tags \<Longrightarrow>
     spans_ok (length (splitlines text)) 0 (sort (map snd tags))"
  by (rule tags_fit_spans_ok) (rule extract_tags_fit)

lemma gaps_lines:
  assumes "spans_ok (length lines) cur spans" "g \<in> set (gaps lines spans cur)" "l \<in> set g"
  shows "l \<in> set lines"
proof -
  from gaps_outside_spans [OF assms] obtain k where "k < length lines" "l = lines ! k"
    by (elim exE conjE)
  then show ?thesis by simp
qed

lemma extract_original_segments_gaps:
  assumes "extract_tags text = Inr tags"
  shows "extract_original_segments text tags
           = map (join [CHR 0x0A])
               (filter (\<lambda>g. g \<noteq> []) (gaps (splitlines text) (sort (map snd tags)) 0))"
  unfolding extract_original_segments_def
  using segments_loop_gaps [OF extract_tags_spans_ok [OF assms], of "[]"] by simp

text \<open>
  Claim C6. For a document whose \<open>extract_tags\<close> succeeds, take the spans in line
  order. The gaps (the lines before the first span, between consecutive spans and
  after the last span) woven with the lines of the spans, BEGIN line to END line,
  give back the document line by line; the segments returned by
  \<open>extract_original_segments\<close> are the non-empty gaps, each joined with LF, and
  splitting a segment at LF gives back the lines of its gap.
\<close>

theorem segments_and_spans_partition_document:
  assumes "extract_tags text = Inr tags"
  shows "length (gaps (splitlines text) (sort (map snd tags)) 0) = Suc (length tags)
     \<and> weave (gaps (splitlines text) (sort (map snd tags)) 0)
             (map (span_lines (splitlines text)) (sort (map snd tags)))
         = splitlines text
     \<and> extract_original_segments text tags
         = map (join [CHR 0x0A])
             (filter (\<lambda>g. g \<noteq> []) (gaps (splitlines text) (sort (map snd tags)) 0))
     \<and> map split_nl (extract_original_segments text tags)
         = filter (\<lambda>g. g \<noteq> []) (gaps (splitlines text) (sort (map snd tags)) 0)"
proof -
  let ?lines = "splitlines text" and ?spans = "sort (map snd tags)"
  have ok: "spans_ok (length ?lines) 0 ?spans" using assms by (rule extract_tags_spans_ok)
  have 1: "length (gaps ?lines ?spans 0) = Suc (length tags)" by (simp add: length_gaps)
  have 2: "weave (gaps ?lines ?spans 0) (map (span_lines ?lines) ?spans) = ?lines"
    using weave_gaps [OF ok] by simp
  have 3: "extract_original_segments text tags
         = map (join [CHR 0x0A]) (filter (\<lambda>g. g \<noteq> []) (gaps ?lines ?spans 0))"
    using assms by (rule extract_original_segments_gaps)
  have "split_nl (join [CHR 0x0A] g) = g"
    if "g \<in> set (filter (\<lambda>g. g \<noteq> []) (gaps ?lines ?spans 0))" for g
  proof (rule split_nl_join)
    from that show "g \<noteq> []" by simp
    from that have g: "g \<in> set (gaps ?lines ?spans 0)" by simp
    show "\<forall>x \<in> set g. CHR 0x0A \<notin> set x"
      using gaps_lines [OF ok g] splitlines_no_LF by blast
  qed
  then have "map (\<lambda>g. split_nl (join [CHR 0x0A] g))
               (filter (\<lambda>g. g \<noteq> []) (gaps ?lines ?spans 0))
         = filter (\<lambda>g. g \<noteq> []) (gaps ?lines ?spans 0)"
    by (rule map_idI)
  then have 4: "map split_nl (extract_original_segments text tags)
         = filter (\<lambda>g. g \<noteq> []) (gaps ?lines ?spans 0)"
    unfolding 3 by (simp add: comp_def)
  show ?thesis using 1 2 3 4 by (intro conjI)
qed

lemma tags_fit_marker_in_span:
  assumes fit: "tags_fit lines tags" and i: "i < length lines"
    and m: "tag_pattern_search (lines ! i) \<noteq> None"
  shows "\<exists>t b e. (t, b, e) \<in> set tags \<and> b \<le> Suc i \<and> Suc i \<le> e"
proof -
  from m obtain mt t where mt: "tag_pattern_search (lines ! i) = Some (mt, t)" by auto
  show ?thesis
  proof (cases mt)
    case BEGIN
    with tags_fit_begin_line [OF fit i] mt obtain e where e: "(t, Suc i, e) \<in> set tags" by blast
    from tags_fit_entry [OF fit e] have "Suc i \<le> e" by simp
    with e show ?thesis by blast
  next
    case END
    with tags_fit_end_line [OF fit i] mt obtain b where b: "(t, b, Suc i) \<in> set tags" by blast
    from tags_fit_entry [OF fit b] have "b \<le> Suc i" by simp
    with b show ?thesis by blast
  qed
qed

lemma tags_fit_gap_line:
  assumes fit: "tags_fit lines tags" and k: "k < length lines"
    and out: "\<forall>p \<in> set (sort (map snd tags)). Suc k < fst p \<or> snd p \<le> k"
  shows "tag_pattern_search (lines ! k) = None"
proof (rule ccontr)
  assume "tag_pattern_search (lines ! k) \<noteq> None"
  from tags_fit_marker_in_span [OF fit k this] obtain t b e
    where m: "(t, b, e) \<in> set tags" and be: "b \<le> Suc k" "Suc k \<le> e" by blast
  from m have "(b, e) \<in> set (sort (map snd tags))" by force
  with out have "Suc k < b \<or> e \<le> k" by fastforce
  with be show False by simp
qed

lemma scan_lines_cong:
  "map tag_pattern_search ls = map tag_pattern_search ls' \<Longrightarrow>
     scan_lines n ls st = scan_lines n ls' st"
proof (induction ls arbitrary: ls' n st)
  case Nil
  then show ?case by simp
next
  case (Cons l ls)
  then obtain l' ls2 where ls': "ls' = l' # ls2" by (cases ls') auto
  with Cons.prems have h: "tag_pattern_search l = tag_pattern_search l'"
    and t: "map tag_pattern_search ls = map tag_pattern_search ls2" by simp_all
  have ih: "scan_lines m ls st2 = scan_lines m ls2 st2" for m st2
    using Cons.IH [OF t] .
  show ?case unfolding ls' by (simp add: h ih split: option.splits marker_type.splits)
qed

lemma extract_tags_cong:
  "map tag_pattern_search (splitlines text) = map tag_pattern_search (splitlines text') \<Longrightarrow>
     extract_tags text = extract_tags text'"
  unfolding extract_tags_def using scan_lines_cong [of "splitlines text" "splitlines text'"]
  by simp

lemma slice_cong:
  assumes "length xs = length ys" "\<forall>k. i \<le> k \<and> k < j \<and> k < length xs \<longrightarrow> xs ! k = ys ! k"
  shows "slice xs i j = slice ys i j"
proof (rule nth_equalityI)
  show "length (slice xs i j) = length (slice ys i j)" using assms(1) by (simp add: slice_def)
  fix m assume "m < length (slice xs i j)"
  then have m: "m < j - i" "i + m < length xs" by (auto simp: slice_def)
  then have "xs ! (i + m) = ys ! (i + m)" using assms(2) by simp
  with m assms(1) show "slice xs i j ! m = slice ys i j ! m" by (simp add: slice_def)
qed

lemma drop_cong:
  assumes "length xs = length ys" "\<forall>k. i \<le> k \<and> k < length xs \<longrightarrow> xs ! k = ys ! k"
  shows "drop i xs = drop i ys"
proof (rule nth_equalityI)
  show "length (drop i xs) = length (drop i ys)" using assms(1) by simp
  fix m assume "m < length (drop i xs)"
  then have m: "i + m < length xs" by simp
  then have "xs ! (i + m) = ys ! (i + m)" using assms(2) by simp
  with m assms(1) show "drop i xs ! m = drop i ys ! m" by simp
qed

lemma gaps_cong:
  assumes "length lines = length lines'"
  shows "spans_ok (length lines) cur spans \<Longrightarrow>
     \<forall>k. cur \<le> k \<and> k < length lines \<and> (\<forall>p \<in> set spans. Suc k < fst p \<or> snd p \<le> k)
           \<longrightarrow> lines ! k = lines' ! k \<Longrightarrow>
     gaps lines spans cur = gaps lines' spans cur"
proof (induction spans arbitrary: cur)
  case Nil
  then show ?case using drop_cong [OF assms, of cur] by simp
next
  case (Cons p spans)
  obtain b e where p: "p = (b, e)" by (cases p)
  from Cons.prems(1) p have ok: "cur < b" "b < e" "spans_ok (length lines) e spans" by simp_all
  have 1: "slice lines cur (b - 1) = slice lines' cur (b - 1)"
  proof (rule slice_cong [OF assms], intro allI impI)
    fix k assume k: "cur \<le> k \<and> k < b - 1 \<and> k < length lines"
    have "Suc k < fst q \<or> snd q \<le> k" if q: "q \<in> set (p # spans)" for q
    proof (cases "q = p")
      case True
      have "Suc k < b" using k by linarith
      with p True show ?thesis by simp
    next
      case False
      with q have "(fst q, snd q) \<in> set spans" by simp
      from spans_ok_bounds [OF ok(3) this] ok(2) k have "Suc k < fst q" by linarith
      then show ?thesis by simp
    qed
    then have "\<forall>q \<in> set (p # spans). Suc k < fst q \<or> snd q \<le> k" by (rule ballI)
    with Cons.prems(2) k show "lines ! k = lines' ! k" by blast
  qed
  have 2: "gaps lines spans e = gaps lines' spans e"
  proof (rule Cons.IH [OF ok(3)], intro allI impI)
    fix k assume k: "e \<le> k \<and> k < length lines \<and> (\<forall>p \<in> set spans. Suc k < fst p \<or> snd p \<le> k)"
    then have "\<forall>q \<in> set (p # spans). Suc k < fst q \<or> snd q \<le> k" using p by simp
    moreover have "cur \<le> k" using k ok(1,2) by simp
    ultimately show "lines ! k = lines' ! k" using Cons.prems(2) k by blast
  qed
  show ?case unfolding p using 1 2 by simp
qed

lemma segments_ignore_marker_text:
  assumes ex: "extract_tags text = Inr tags"
    and len: "length (splitlines text') = length (splitlines text)"
    and same: "\<forall>i < length (splitlines text).
        tag_pattern_search (splitlines text' ! i) = tag_pattern_search (splitlines text ! i)
        \<and> (tag_pattern_search (splitlines text ! i) = None \<longrightarrow>
              splitlines text' ! i = splitlines text ! i)"
  shows "extract_tags text' = Inr tags
     \<and> extract_original_segments text' tags = extract_original_segments text tags"
proof -
  let ?lines = "splitlines text" and ?lines' = "splitlines text'" and ?spans = "sort (map snd tags)"
  have "map tag_pattern_search ?lines' = map tag_pattern_search ?lines"
    by (rule nth_equalityI) (use len same in simp_all)
  from extract_tags_cong [OF this] ex have ex': "extract_tags text' = Inr tags" by simp
  have fit: "tags_fit ?lines tags" using ex by (rule extract_tags_fit)
  have ok: "spans_ok (length ?lines) 0 ?spans" using ex by (rule extract_tags_spans_ok)
  have "gaps ?lines ?spans 0 = gaps ?lines' ?spans 0"
  proof (rule gaps_cong [OF len [symmetric] ok], intro allI impI)
    fix k assume k: "0 \<le> k \<and> k < length ?lines
        \<and> (\<forall>p \<in> set ?spans. Suc k < fst p \<or> snd p \<le> k)"
    then have "tag_pattern_search (?lines ! k) = None" using tags_fit_gap_line [OF fit] by blast
    with same k show "?lines ! k = ?lines' ! k" by simp
  qed
  then have "extract_original_segments text' tags = extract_original_segments text tags"
    unfolding extract_original_segments_gaps [OF ex] extract_original_segments_gaps [OF ex']
    by simp
  with ex' show ?thesis by simp
qed

text \<open>
  Claim C10. For a document whose \<open>extract_tags\<close> succeeds, no line of any segment
  returned by \<open>extract_original_segments\<close> is a marker line, and every marker line
  of the document lies in the span of one of the tags. So no text of a marker
  line reaches \<open>compare_segments\<close>: a document that differs only on marker lines,
  with the same marker type and tag on each, has the same tag map and the same
  segments.
\<close>

theorem segments_contain_no_marker_line:
  assumes "extract_tags text = Inr tags"
  shows "(\<forall>s \<in> set (extract_original_segments text tags).
            \<forall>l \<in> set (split_nl s). tag_pattern_search l = None)
     \<and> (\<forall>i < length (splitlines text). tag_pattern_search (splitlines text ! i) \<noteq> None \<longrightarrow>
            (\<exists>(t, b, e) \<in> set tags. b \<le> Suc i \<and> Suc i \<le> e))
     \<and> (\<forall>text'.
            length (splitlines text') = length (splitlines text)
            \<and> (\<forall>i < length (splitlines text).
                  tag_pattern_search (splitlines text' ! i)
                    = tag_pattern_search (splitlines text ! i)
                  \<and> (tag_pattern_search (splitlines text ! i) = None \<longrightarrow>
                        splitlines text' ! i = splitlines text ! i))
            \<longrightarrow> extract_tags text' = Inr tags
                \<and> extract_original_segments text' tags = extract_original_segments text tags)"
proof -
  let ?lines = "splitlines text" and ?spans = "sort (map snd tags)"
  have fit: "tags_fit ?lines tags" using assms by (rule extract_tags_fit)
  have ok: "spans_ok (length ?lines) 0 ?spans" using assms by (rule extract_tags_spans_ok)
  have 1: "tag_pattern_search l = None"
    if s: "s \<in> set (extract_original_segments text tags)" and l: "l \<in> set (split_nl s)" for s l
  proof -
    from s obtain g where g: "g \<in> set (gaps ?lines ?spans 0)" "g \<noteq> []"
      and sg: "s = join [CHR 0x0A] g"
      unfolding extract_original_segments_gaps [OF assms] by auto
    have "\<forall>x \<in> set g. CHR 0x0A \<notin> set x"
      using gaps_lines [OF ok g(1)] splitlines_no_LF by blast
    with g(2) sg have "split_nl s = g" by (simp add: split_nl_join)
    with l have "l \<in> set g" by simp
    from gaps_outside_spans [OF ok g(1) this] obtain k
      where "k < length ?lines" "l = ?lines ! k"
        "\<forall>p \<in> set ?spans. Suc k < fst p \<or> snd p \<le> k"
      by (elim exE conjE)
    with tags_fit_gap_line [OF fit] show ?thesis by simp
  qed
  have 2: "\<exists>(t, b, e) \<in> set tags. b \<le> Suc i \<and> Suc i \<le> e"
    if "i < length ?lines" "tag_pattern_search (?lines ! i) \<noteq> None" for i
    using tags_fit_marker_in_span [OF fit that] by fast
  have 3: "extract_tags text' = Inr tags
       \<and> extract_original_segments text' tags = extract_original_segments text tags"
    if "length (splitlines text') = length ?lines
        \<and> (\<forall>i < length ?lines.
              tag_pattern_search (splitlines text' ! i) = tag_pattern_search (?lines ! i)
              \<and> (tag_pattern_search (?lines ! i) = None \<longrightarrow> splitlines text' ! i = ?lines ! i))"
    for text'
    using segments_ignore_marker_text [OF assms, of text'] that by (elim conjE)
  show ?thesis
  proof (intro conjI)
    show "\<forall>s \<in> set (extract_original_segments text tags).
            \<forall>l \<in> set (split_nl s). tag_pattern_search l = None"
      using 1 by blast
    show "\<forall>i < length ?lines. tag_pattern_search (?lines ! i) \<noteq> None \<longrightarrow>
            (\<exists>(t, b, e) \<in> set tags. b \<le> Suc i \<and> Suc i \<le> e)"
      using 2 by blast
    show "\<forall>text'.
            length (splitlines text') = length ?lines
            \<and> (\<forall>i < length ?lines.
                  tag_pattern_search (splitlines text' ! i) = tag_pattern_search (?lines ! i)
                  \<and> (tag_pattern_search (?lines ! i) = None \<longrightarrow>
                        splitlines text' ! i = ?lines ! i))
            \<longrightarrow> extract_tags text' = Inr tags
                \<and> extract_original_segments text' tags = extract_original_segments text tags"
      using 3 by (intro allI impI)
  qed
qed

theorem segments_and_spans_partition_document_witness:
  "extract_tags (''header'' @ [CHR 0x0A] @ ''// BEGIN-TODO(a)'' @ [CHR 0x0A] @ ''TODO'' @ [CHR 0x0A]
        @ ''// END-TODO(a)'' @ [CHR 0x0A] @ ''footer'') = Inr [(''a'', 2, 4)]
   \<and> weave (gaps (splitlines (''header'' @ [CHR 0x0A] @ ''// BEGIN-TODO(a)'' @ [CHR 0x0A] @ ''TODO'' @ [CHR 0x0A]
        @ ''// END-TODO(a)'' @ [CHR 0x0A] @ ''footer'')) (sort (map snd [(''a'', 2::nat, 4::nat)])) 0)
           (map (span_lines (splitlines (''header'' @ [CHR 0x0A] @ ''// BEGIN-TODO(a)'' @ [CHR 0x0A] @ ''TODO'' @ [CHR 0x0A]
        @ ''// END-TODO(a)'' @ [CHR 0x0A] @ ''footer''))) (sort (map snd [(''a'', 2::nat, 4::nat)])))
       = splitlines (''header'' @ [CHR 0x0A] @ ''// BEGIN-TODO(a)'' @ [CHR 0x0A] @ ''TODO'' @ [CHR 0x0A]
        @ ''// END-TODO(a)'' @ [CHR 0x0A] @ ''footer'')"
proof -
  have h: "extract_tags (''header'' @ [CHR 0x0A] @ ''// BEGIN-TODO(a)'' @ [CHR 0x0A] @ ''TODO'' @ [CHR 0x0A]
        @ ''// END-TODO(a)'' @ [CHR 0x0A] @ ''footer'') = Inr [(''a'', 2, 4)]"
    by code_simp
  from segments_and_spans_partition_document [OF h]
  have "weave (gaps (splitlines (''header'' @ [CHR 0x0A] @ ''// BEGIN-TODO(a)'' @ [CHR 0x0A] @ ''TODO'' @ [CHR 0x0A]
        @ ''// END-TODO(a)'' @ [CHR 0x0A] @ ''footer'')) (sort (map snd [(''a'', 2::nat, 4::nat)])) 0)
           (map (span_lines (splitlines (''header'' @ [CHR 0x0A] @ ''// BEGIN-TODO(a)'' @ [CHR 0x0A] @ ''TODO'' @ [CHR 0x0A]
        @ ''// END-TODO(a)'' @ [CHR 0x0A] @ ''footer''))) (sort (map snd [(''a'', 2::nat, 4::nat)])))
       = splitlines (''header'' @ [CHR 0x0A] @ ''// BEGIN-TODO(a)'' @ [CHR 0x0A] @ ''TODO'' @ [CHR 0x0A]
        @ ''// END-TODO(a)'' @ [CHR 0x0A] @ ''footer'')"
    by (elim conjE)
  with h show ?thesis by (rule conjI)
qed

theorem segments_contain_no_marker_line_witness:
  "extract_tags (''header'' @ [CHR 0x0A] @ ''// BEGIN-TODO(a)'' @ [CHR 0x0A] @ ''TODO'' @ [CHR 0x0A]
        @ ''// END-TODO(a)'' @ [CHR 0x0A] @ ''footer'') = Inr [(''a'', 2, 4)]
   \<and> extract_original_segments (''header'' @ [CHR 0x0A] @ ''// BEGIN-TODO(a)'' @ [CHR 0x0A] @ ''TODO'' @ [CHR 0x0A]
        @ ''// END-TODO(a)'' @ [CHR 0x0A] @ ''footer'') [(''a'', 2, 4)] = [''header'', ''footer'']
   \<and> tag_pattern_search ''header'' = None \<and> tag_pattern_search ''footer'' = None"
proof -
  have h: "extract_tags (''header'' @ [CHR 0x0A] @ ''// BEGIN-TODO(a)'' @ [CHR 0x0A] @ ''TODO'' @ [CHR 0x0A]
        @ ''// END-TODO(a)'' @ [CHR 0x0A] @ ''footer'') = Inr [(''a'', 2, 4)]"
    by code_simp
  have segs: "extract_original_segments (''header'' @ [CHR 0x0A] @ ''// BEGIN-TODO(a)'' @ [CHR 0x0A] @ ''TODO'' @ [CHR 0x0A]
        @ ''// END-TODO(a)'' @ [CHR 0x0A] @ ''footer'') [(''a'', 2, 4)] = [''header'', ''footer'']"
    by code_simp
  from segments_contain_no_marker_line [OF h]
  have "\<forall>s \<in> set (extract_original_segments (''header'' @ [CHR 0x0A] @ ''// BEGIN-TODO(a)'' @ [CHR 0x0A] @ ''TODO'' @ [CHR 0x0A]
        @ ''// END-TODO(a)'' @ [CHR 0x0A] @ ''footer'') [(''a'', 2, 4)]).
         \<forall>l \<in> set (split_nl s). tag_pattern_search l = None"
    by (elim conjE)
  then have "\<forall>s \<in> set [''header'', ''footer''].
         \<forall>l \<in> set (split_nl s). tag_pattern_search l = None"
    unfolding segs .
  then have "tag_pattern_search ''header'' = None \<and> tag_pattern_search ''footer'' = None"
    by simp
  with h segs show ?thesis by (intro conjI) (elim conjE, assumption)+
qed

section \<open>Properties of check_submission\<close>






lemma try_stage_Inr: "try_stage (Inr x) cont = cont x"
  by (simp add: try_stage_def)

lemma try_stage_ValueError: "try_stage (Inl (ValueError m)) cont = Inr (rejected m)"
  by (simp add: try_stage_def)










lemma check_submission_accepted:
  assumes "fs af = Some atext" "fs sf = Some stext" "check_filenames flag af sf = Inr ()"
    and "extract_tags atext = Inr ta" "extract_tags stext = Inr ts"
    and "compare_tags ta ts = Inr ()"
    and "compare_segments (extract_original_segments atext ta)
           (extract_original_segments stext ts) = Inr ()"
  shows "check_submission flag fs af sf = Inr accepted"
  using assms by (simp add: check_submission_def try_stage_def read_text_def)




section \<open>The segment lists of an accepted pair\<close>

text \<open>
  Claim C2 says that two texts whose tag maps pass \<open>compare_tags\<close> have segment
  sequences of equal length, so that pairing by position compares corresponding
  regions. At a template with a header line before its only span and a submission
  that starts with the span, both extractions and \<open>compare_tags\<close> pass, but the
  template has the one segment \<^verbatim>\<open>header\<close> and the submission has none: the loop of
  \<open>compare_segments\<close> has nothing to compare, and \<open>check_submission\<close> accepts the
  submission although the header was deleted.
\<close>

theorem segments_unequal_length_accepts_deleted_header:
  "extract_tags (''header'' @ [CHR 0x0A] @ ''// BEGIN-TODO(a)'' @ [CHR 0x0A] @ ''// END-TODO(a)'') = Inr [(''a'', 2, 3)]
   \<and> extract_tags (''// BEGIN-TODO(a)'' @ [CHR 0x0A] @ ''// END-TODO(a)'') = Inr [(''a'', 1, 2)]
   \<and> compare_tags [(''a'', 2, 3)] [(''a'', 1, 2)] = Inr ()
   \<and> extract_original_segments (''header'' @ [CHR 0x0A] @ ''// BEGIN-TODO(a)'' @ [CHR 0x0A] @ ''// END-TODO(a)'') [(''a'', 2, 3)] = [''header'']
   \<and> extract_original_segments (''// BEGIN-TODO(a)'' @ [CHR 0x0A] @ ''// END-TODO(a)'') [(''a'', 1, 2)] = []
   \<and> compare_segments [''header''] [] = Inr ()
   \<and> check_submission False
         [''hw1-assignment.dfy'' \<mapsto> (''header'' @ [CHR 0x0A] @ ''// BEGIN-TODO(a)'' @ [CHR 0x0A] @ ''// END-TODO(a)''), ''hw1-submission.dfy'' \<mapsto> (''// BEGIN-TODO(a)'' @ [CHR 0x0A] @ ''// END-TODO(a)'')]
         ''hw1-assignment.dfy'' ''hw1-submission.dfy'' = Inr accepted"
proof -
  let ?fs = "[''hw1-assignment.dfy'' \<mapsto> (''header'' @ [CHR 0x0A] @ ''// BEGIN-TODO(a)'' @ [CHR 0x0A] @ ''// END-TODO(a)''), ''hw1-submission.dfy'' \<mapsto> (''// BEGIN-TODO(a)'' @ [CHR 0x0A] @ ''// END-TODO(a)'')]"
  have f1: "?fs ''hw1-assignment.dfy'' = Some (''header'' @ [CHR 0x0A] @ ''// BEGIN-TODO(a)'' @ [CHR 0x0A] @ ''// END-TODO(a)'')" by simp
  have f2: "?fs ''hw1-submission.dfy'' = Some (''// BEGIN-TODO(a)'' @ [CHR 0x0A] @ ''// END-TODO(a)'')" by simp
  have c: "check_filenames False ''hw1-assignment.dfy'' ''hw1-submission.dfy'' = Inr ()"
    by code_simp
  have h1: "extract_tags (''header'' @ [CHR 0x0A] @ ''// BEGIN-TODO(a)'' @ [CHR 0x0A] @ ''// END-TODO(a)'') = Inr [(''a'', 2, 3)]"
    by code_simp
  have h2: "extract_tags (''// BEGIN-TODO(a)'' @ [CHR 0x0A] @ ''// END-TODO(a)'') = Inr [(''a'', 1, 2)]"
    by code_simp
  have h3: "compare_tags [(''a'', 2, 3)] [(''a'', 1, 2)] = Inr ()"
    by code_simp
  have s1: "extract_original_segments (''header'' @ [CHR 0x0A] @ ''// BEGIN-TODO(a)'' @ [CHR 0x0A] @ ''// END-TODO(a)'') [(''a'', 2, 3)] = [''header'']"
    by code_simp
  have s2: "extract_original_segments (''// BEGIN-TODO(a)'' @ [CHR 0x0A] @ ''// END-TODO(a)'') [(''a'', 1, 2)] = []"
    by code_simp
  have h4: "compare_segments [''header''] [] = Inr ()" by simp
  have h4': "compare_segments (extract_original_segments (''header'' @ [CHR 0x0A] @ ''// BEGIN-TODO(a)'' @ [CHR 0x0A] @ ''// END-TODO(a)'') [(''a'', 2, 3)])
               (extract_original_segments (''// BEGIN-TODO(a)'' @ [CHR 0x0A] @ ''// END-TODO(a)'') [(''a'', 1, 2)]) = Inr ()"
    unfolding s1 s2 by (rule h4)
  have v: "check_submission False ?fs ''hw1-assignment.dfy'' ''hw1-submission.dfy''
             = Inr accepted"
    using f1 f2 c h1 h2 h3 h4' by (rule check_submission_accepted)
  show ?thesis using h1 h2 h3 s1 s2 h4 v by (intro conjI)
qed

end
